theory Spec2Isabelle
  imports Main "HOL-Library.Char_ord" "HOL-Library.List_Lexorder" "HOL-Library.Word"
begin

section \<open>TXmlConfig: flattening an XML tree into a path-addressed store\<close>

text \<open>
  The development follows the class \<^verbatim>\<open>TXmlConfig\<close> of \<^verbatim>\<open>TXmlConfig.h\<close>.
  A \<^verbatim>\<open>std::string\<close> is a \<open>string\<close> (a list of bytes), the member
  \<^verbatim>\<open>std::map<std::string, std::string> mNodes\<close> is an association list kept in
  strictly ascending key order (the order in which a \<^verbatim>\<open>std::map\<close> is iterated:
  lexicographic comparison of bytes), and the \<^verbatim>\<open>size_t\<close> counter of
  \<^verbatim>\<open>pathCount\<close> is a \<open>nat\<close> (it is bounded by the number of stored keys plus
  one, so it never wraps).
\<close>

subsection \<open>Strings\<close>

definition valDNE :: string where
  "valDNE = ''<DNE/>''"

definition pathDelim :: string where
  "pathDelim = ''.''"

definition attrDelim :: string where
  "attrDelim = '':''"

text \<open>\<^verbatim>\<open>std::isspace\<close> in the default "C" locale: space, and the bytes 9 to 13.\<close>

definition isspace :: "char \<Rightarrow> bool" where
  "isspace c = (c = CHR '' '' \<or> (9 \<le> (of_char c :: nat) \<and> (of_char c :: nat) \<le> 13))"

text \<open>The erase/remove-if idiom used on paths and on vector values.\<close>

definition erase_ws :: "string \<Rightarrow> string" where
  "erase_ws s = filter (\<lambda>c. \<not> isspace c) s"

text \<open>
  \<^verbatim>\<open>std::string::find(pat)\<close>: the least position at which \<open>pat\<close> occurs,
  \<open>None\<close> for \<^verbatim>\<open>npos\<close>.
\<close>

fun str_find :: "string \<Rightarrow> string \<Rightarrow> nat option" where
  "str_find [] pat = (if pat = [] then Some 0 else None)"
| "str_find (c # cs) pat =
     (if take (length pat) (c # cs) = pat then Some 0
      else map_option Suc (str_find cs pat))"

text \<open>
  \<^verbatim>\<open>std::string::erase(pos, len)\<close>; it throws only when \<open>pos\<close> exceeds the size,
  which no caller here can cause (the position comes from \<open>str_find\<close> or is 0).
\<close>

definition str_erase :: "string \<Rightarrow> nat \<Rightarrow> nat \<Rightarrow> string" where
  "str_erase s pos len = take pos s @ drop (pos + len) s"

text \<open>\<^verbatim>\<open>std::string::substr(0, n)\<close>.\<close>

definition substr0 :: "string \<Rightarrow> nat \<Rightarrow> string" where
  "substr0 s n = take n s"

subsection \<open>Canonical paths\<close>

definition canonize :: "string \<Rightarrow> string" where
  "canonize path =
     (let p = erase_ws path;
          found = str_find p ''[0]'';
          len = (if found \<noteq> None then 3 else 0);
          pos = (case found of Some i \<Rightarrow> i | None \<Rightarrow> 0)
      in str_erase p pos len)"

subsection \<open>The store\<close>

type_synonym store = "(string \<times> string) list"

text \<open>\<^verbatim>\<open>mNodes.count(k)\<close> and \<^verbatim>\<open>mNodes[k] = v\<close>.\<close>

definition count :: "store \<Rightarrow> string \<Rightarrow> nat" where
  "count m k = (case map_of m k of None \<Rightarrow> 0 | Some _ \<Rightarrow> 1)"

fun assign :: "store \<Rightarrow> string \<Rightarrow> string \<Rightarrow> store" where
  "assign [] k v = [(k, v)]"
| "assign ((k', v') # m) k v =
     (if k = k' then (k, v) # m
      else if k < k' then (k, v) # (k', v') # m
      else (k', v') # assign m k v)"

datatype error = OutOfRange

text \<open>\<^verbatim>\<open>mNodes.at(k)\<close>, which throws \<^verbatim>\<open>std::out_of_range\<close> on a missing key.\<close>

definition at :: "store \<Rightarrow> string \<Rightarrow> error + string" where
  "at m k = (case map_of m k of None \<Rightarrow> Inl OutOfRange | Some v \<Rightarrow> Inr v)"

text \<open>The representation invariant of the store: keys strictly ascending.\<close>

definition store_ok :: "store \<Rightarrow> bool" where
  "store_ok m = (sorted (map fst m) \<and> distinct (map fst m))"

record TXmlConfig =
  mErrorParsing :: bool
  mNodes :: store

subsection \<open>Decimal text\<close>

text \<open>
  \<^verbatim>\<open>TString::Format("[%zu]", index)\<close> and the stream insertion of an \<^verbatim>\<open>int\<close>
  print decimal digits, most significant first; the stream extraction of an
  \<^verbatim>\<open>int\<close> reads them back.
\<close>

definition digit_char :: "nat \<Rightarrow> char" where
  "digit_char d = ''0123456789'' ! d"

fun dec :: "nat \<Rightarrow> string" where
  "dec n = (if n < 10 then [digit_char n] else dec (n div 10) @ [digit_char (n mod 10)])"

declare dec.simps [simp del]

definition fmt_index :: "nat \<Rightarrow> string" where
  "fmt_index index = ''['' @ dec index @ '']''"

definition is_digit :: "char \<Rightarrow> bool" where
  "is_digit c = (48 \<le> (of_char c :: nat) \<and> (of_char c :: nat) \<le> 57)"

definition digit_val :: "char \<Rightarrow> nat" where
  "digit_val c = of_char c - 48"

definition from_dec :: "string \<Rightarrow> nat" where
  "from_dec s = foldl (\<lambda>a c. 10 * a + digit_val c) 0 s"

subsection \<open>The flattener\<close>

text \<open>
  Modelled from the spec: the node tree of the external parser (\<^verbatim>\<open>TXMLEngine\<close>), which
  the repository only uses through \<^verbatim>\<open>GetNodeName\<close>, \<^verbatim>\<open>GetNodeContent\<close>, the
  attribute iteration and the child iteration: a node has a name, an optional text
  content, an ordered list of attributes (name, optional value) and ordered children.
\<close>

datatype xml_node =
  XmlNode (GetNodeName: string) (GetNodeContent: "string option")
    (GetAttrs: "(string \<times> string option) list") (GetChildren: "xml_node list")

text \<open>
  The loop of \<^verbatim>\<open>pathCount\<close>, entered with \<open>index\<close>. It ends because the store is
  finite and distinct indices print differently.
\<close>

function pathCount_from :: "store \<Rightarrow> string \<Rightarrow> nat \<Rightarrow> nat" where
  "pathCount_from m path index =
     (if count m (path @ fmt_index index) \<noteq> 0 then pathCount_from m path (index + 1)
      else index)"
  by pat_completeness auto
termination
proof (relation
    "measure (\<lambda>(m, path, index). card {j. index \<le> j \<and> path @ fmt_index j \<in> fst ` set m})")
  show "wf (measure (\<lambda>(m, path, index).
      card {j. index \<le> j \<and> path @ fmt_index j \<in> fst ` set m}))"
    by simp
next
  fix m :: store and path index
  assume a: "count m (path @ fmt_index index) \<noteq> 0"
  let ?S = "\<lambda>i. {j. i \<le> j \<and> path @ fmt_index j \<in> fst ` set m}"
  have digit: "(of_char (digit_char d) :: nat) = 48 + d" if "d < 10" for d
  proof -
    from that have "d \<in> {0, 1, 2, 3, 4, 5, 6, 7, 8, 9}" by auto
    then show ?thesis by (auto simp: digit_char_def)
  qed
  have undo: "from_dec (dec n) = n" for n
  proof (induction n rule: dec.induct)
    case (1 n)
    show ?case
    proof (cases "n < 10")
      case True
      then show ?thesis
        by (subst dec.simps) (simp add: from_dec_def digit_val_def digit)
    next
      case False
      with 1 have "from_dec (dec (n div 10)) = n div 10" by simp
      with False show ?thesis
        by (subst dec.simps) (simp add: from_dec_def digit_val_def digit)
    qed
  qed
  have "a = b" if "dec a = dec b" for a b
    using that undo by metis
  then have inj: "inj (\<lambda>j. path @ fmt_index j)"
    by (auto simp: inj_def fmt_index_def)
  have fin: "finite (?S index)"
  proof -
    have "finite ((\<lambda>j. path @ fmt_index j) -` (fst ` set m))"
      using inj by (intro finite_vimageI) auto
    moreover have "?S index \<subseteq> (\<lambda>j. path @ fmt_index j) -` (fst ` set m)"
      by auto
    ultimately show ?thesis by (rule rev_finite_subset)
  qed
  from a have mem: "path @ fmt_index index \<in> fst ` set m"
    by (auto simp: count_def split: option.splits dest: map_of_SomeD intro: rev_image_eqI)
  have "index \<in> ?S index" using mem by simp
  moreover have "index \<notin> ?S (index + 1)" by simp
  moreover have "?S (index + 1) \<subseteq> ?S index" by auto
  ultimately have "?S (index + 1) \<subset> ?S index" by blast
  then have "card (?S (index + 1)) < card (?S index)"
    using fin by (rule psubset_card_mono[rotated])
  then show "((m, path, index + 1), (m, path, index)) \<in> measure (\<lambda>(m, path, index).
      card {j. index \<le> j \<and> path @ fmt_index j \<in> fst ` set m})"
    by simp
qed

declare pathCount_from.simps [simp del]

definition pathCount :: "store \<Rightarrow> string \<Rightarrow> nat" where
  "pathCount m path = pathCount_from m path 1"

text \<open>The attribute loop of \<^verbatim>\<open>mapFile\<close>.\<close>

fun mapAttrs :: "store \<Rightarrow> string \<Rightarrow> (string \<times> string option) list \<Rightarrow> store" where
  "mapAttrs m path [] = m"
| "mapAttrs m path ((attr_name, attr_value) # rest) =
     (let attr_val = (case attr_value of Some v \<Rightarrow> v | None \<Rightarrow> valDNE)
      in mapAttrs (assign m (path @ attrDelim @ attr_name) attr_val) path rest)"

text \<open>
  The block "be careful about repeated nodes" of \<^verbatim>\<open>mapFile\<close>: the path under
  which the node is recorded, and the store after recording it.
\<close>

definition recordNode :: "store \<Rightarrow> string \<Rightarrow> string \<Rightarrow> string \<times> store" where
  "recordNode m path node_content =
     (if count m path = 0 then (path, assign m path node_content)
      else (let index = pathCount m path;
                path' = path @ fmt_index index
            in (path', assign m path' node_content)))"

text \<open>
  \<^verbatim>\<open>mapFile\<close>, with the loop over the children as \<open>mapChildren\<close>. The level is an
  \<^verbatim>\<open>Int_t\<close> that is only compared with 1.
\<close>

fun mapFile :: "store \<Rightarrow> xml_node \<Rightarrow> nat \<Rightarrow> string \<Rightarrow> store"
  and mapChildren :: "store \<Rightarrow> xml_node list \<Rightarrow> nat \<Rightarrow> string \<Rightarrow> store" where
  "mapFile m (XmlNode name content as cs) level path =
     (let path1 = (if path \<noteq> [] then path @ pathDelim else path);
          path2 = (if level > 1 then path1 @ name else path1);
          node_content = (case content of Some c \<Rightarrow> c | None \<Rightarrow> valDNE);
          (path3, m1) = recordNode m path2 node_content;
          m2 = mapAttrs m1 path3 as
      in mapChildren m2 cs (level + 1) path3)"
| "mapChildren m [] level path = m"
| "mapChildren m (child # rest) level path =
     mapChildren (mapFile m child level path) rest level path"

text \<open>
  \<^verbatim>\<open>load\<close>. The two entry points of the external parser are parameters; they return
  the root element of the document, or \<open>None\<close> when the document does not parse.
\<close>

definition load ::
  "(string \<Rightarrow> xml_node option) \<Rightarrow> (string \<Rightarrow> xml_node option) \<Rightarrow>
   TXmlConfig \<Rightarrow> string \<Rightarrow> bool \<Rightarrow> TXmlConfig" where
  "load ParseString ParseFile cfg filename asString =
     (let cfg1 = cfg\<lparr>mNodes := []\<rparr>;
          xmldoc = (if asString then ParseString filename else ParseFile filename)
      in case xmldoc of
           None \<Rightarrow> cfg1\<lparr>mErrorParsing := True\<rparr>
         | Some root_node \<Rightarrow> cfg1\<lparr>mNodes := mapFile (mNodes cfg1) root_node 1 []\<rparr>)"

subsection \<open>Conversions\<close>

text \<open>
  The generic \<^verbatim>\<open>convert<T>\<close> declares \<^verbatim>\<open>T rv\<close> without a value and extracts into
  it from a stream holding the text. The extraction is the one of the C++ standard
  library (\<^verbatim>\<open>std::istream::operator>>\<close>), which is not part of the repository; for
  \<^verbatim>\<open>int\<close> it is modelled here as the standard describes it. It skips leading white
  space; when nothing is left, nothing is stored and \<open>rv\<close> stays indeterminate
  (\<open>None\<close>). Otherwise it reads an optional sign and the longest run of decimal
  digits, stores 0 when there is no digit, and the nearest bound when the number does
  not fit.
\<close>

definition INT_MAX :: int where
  "INT_MAX = 2147483647"

definition INT_MIN :: int where
  "INT_MIN = - 2147483648"

definition extract_int :: "string \<Rightarrow> int option" where
  "extract_int s =
     (let s1 = dropWhile isspace s
      in if s1 = [] then None
         else
           (let negative = (hd s1 = CHR ''-'');
                s2 = (if hd s1 = CHR ''-'' \<or> hd s1 = CHR ''+'' then tl s1 else s1);
                ds = takeWhile is_digit s2
            in if ds = [] then Some 0
               else
                 (let v = (if negative then - int (from_dec ds) else int (from_dec ds))
                  in Some (if v < INT_MIN then INT_MIN
                           else if v > INT_MAX then INT_MAX else v))))"

type_synonym cint = "32 word"

definition convert_int :: "string \<Rightarrow> cint option" where
  "convert_int s = map_option word_of_int (extract_int s)"

definition convert_string :: "string \<Rightarrow> string" where
  "convert_string str = str"

definition convert_bool :: "string \<Rightarrow> bool option" where
  "convert_bool str =
     (if str = ''false'' then Some False
      else if str = ''true'' then Some True
      else map_option (\<lambda>i. i \<noteq> 0) (convert_int str))"

text \<open>\<^verbatim>\<open>convertTo<int>\<close>: the stream insertion of an \<^verbatim>\<open>int\<close>.\<close>

definition convertTo_int :: "cint \<Rightarrow> string" where
  "convertTo_int v =
     (if sint v < 0 then ''-'' @ dec (nat (- sint v)) else dec (nat (sint v)))"

subsection \<open>Floating point\<close>

text \<open>
  The generic \<^verbatim>\<open>convert<T>\<close> and \<^verbatim>\<open>convertTo<T>\<close> at \<^verbatim>\<open>T = double\<close> are the
  stream extraction and insertion of a \<^verbatim>\<open>double\<close>. The type and both operations
  belong to the C++ standard library and to IEEE 754, not to the repository; they
  are modelled here as the standards describe them. A \<^verbatim>\<open>double\<close> is an infinity, a
  NaN, or a sign with a significand \<open>m\<close> and an exponent \<open>e\<close>, of value
  \<open>m * 2 ^ e\<close>, where \<open>2 ^ 52 \<le> m < 2 ^ 53\<close> and \<open>- 1074 \<le> e \<le> 971\<close>, or
  \<open>m < 2 ^ 52\<close> and \<open>e = - 1074\<close> (zero and the subnormal numbers).
\<close>

datatype double = Finite bool nat int | Infinity bool | NaN bool

text \<open>The positive fraction \<open>n / d\<close> is carried as the pair \<open>(n, d)\<close>.\<close>

definition shift :: "nat \<Rightarrow> nat \<times> nat \<Rightarrow> int \<Rightarrow> nat \<times> nat" where
  "shift b x k =
     (if 0 \<le> k then (fst x, snd x * b ^ nat k) else (fst x * b ^ nat (- k), snd x))"

fun ndigits :: "nat \<Rightarrow> nat \<Rightarrow> nat" where
  "ndigits b n = (if n = 0 \<or> b < 2 then 0 else Suc (ndigits b (n div b)))"

declare ndigits.simps [simp del]

text \<open>The integer \<open>k\<close> with \<open>b ^ k \<le> n / d < b ^ (k + 1)\<close>.\<close>

definition floor_log :: "nat \<Rightarrow> nat \<Rightarrow> nat \<Rightarrow> int" where
  "floor_log b n d =
     (let k = int (ndigits b n) - int (ndigits b d);
          (n', d') = shift b (n, d) k
      in if d' \<le> n' then k else k - 1)"

text \<open>The integer nearest to \<open>n / d\<close>, the even one of two equally near.\<close>

definition round_half_even :: "nat \<Rightarrow> nat \<Rightarrow> nat" where
  "round_half_even n d =
     (let q = n div d; r = n mod d
      in if 2 * r < d then q
         else if d < 2 * r then q + 1
         else if even q then q else q + 1)"

text \<open>
  The \<^verbatim>\<open>double\<close> nearest to \<open>n / d\<close> with the given sign (round to nearest, ties to
  even), which is what a decimal literal denotes and what \<^verbatim>\<open>strtod\<close> returns; the
  infinity when the fraction is beyond the range.
\<close>

definition nearest_double :: "bool \<Rightarrow> nat \<Rightarrow> nat \<Rightarrow> double" where
  "nearest_double neg n d =
     (if n = 0 then Finite neg 0 (- 1074)
      else
        (let e = max (floor_log 2 n d - 52) (- 1074);
             (n', d') = shift 2 (n, d) e;
             m = round_half_even n' d';
             (m', e') = (if m = 2 ^ 53 then (2 ^ 52, e + 1) else (m, e))
         in if 971 < e' then Infinity neg else Finite neg m' e'))"

definition max_double :: "bool \<Rightarrow> double" where
  "max_double neg = Finite neg (2 ^ 53 - 1) 971"

text \<open>
  \<^verbatim>\<open>convertTo<double>\<close>: the stream insertion of a \<^verbatim>\<open>double\<close> into a stream in its
  initial state, which prints as \<^verbatim>\<open>printf("%.6g")\<close>. The value is rounded to six
  significant decimal digits \<open>q\<close> with decimal exponent \<open>x\<close>; it is printed with an
  exponent of at least two digits when \<open>x < - 4\<close> or \<open>6 \<le> x\<close> and in positional
  notation otherwise, in both cases without the trailing zeros of the fraction and
  without a decimal point that nothing follows.
\<close>

definition decimal6 :: "nat \<Rightarrow> nat \<Rightarrow> nat \<times> int" where
  "decimal6 n d =
     (let x = floor_log 10 n d;
          (n', d') = shift 10 (n, d) (x - 5);
          q = round_half_even n' d'
      in if q = 1000000 then (100000, x + 1) else (q, x))"

definition strip_zeros :: "string \<Rightarrow> string" where
  "strip_zeros s = rev (dropWhile (\<lambda>c. c = CHR ''0'') (rev s))"

definition point_fraction :: "string \<Rightarrow> string" where
  "point_fraction s = (if strip_zeros s = [] then [] else ''.'' @ strip_zeros s)"

definition format_g :: "nat \<Rightarrow> int \<Rightarrow> string" where
  "format_g q x =
     (let ds = dec q
      in if x < - 4 \<or> 6 \<le> x then
           [hd ds] @ point_fraction (tl ds) @ ''e'' @ (if x < 0 then ''-'' else ''+'') @
           (if \<bar>x\<bar> < 10 then ''0'' else []) @ dec (nat \<bar>x\<bar>)
         else if 0 \<le> x then
           take (nat x + 1) ds @ point_fraction (drop (nat x + 1) ds)
         else
           ''0.'' @ replicate (nat (- x - 1)) (CHR ''0'') @ strip_zeros ds)"

definition convertTo_double :: "double \<Rightarrow> string" where
  "convertTo_double v =
     (case v of
        Finite neg m e \<Rightarrow>
          (if neg then ''-'' else []) @
          (if m = 0 then ''0''
           else (let (n, d) = shift 2 (m, 1) (- e); (q, x) = decimal6 n d in format_g q x))
      | Infinity neg \<Rightarrow> (if neg then ''-inf'' else ''inf'')
      | NaN neg \<Rightarrow> (if neg then ''-nan'' else ''nan''))"

text \<open>
  \<^verbatim>\<open>convert<double>\<close>: the stream extraction of a \<^verbatim>\<open>double\<close> into \<^verbatim>\<open>T rv\<close>. It
  skips leading white space; when nothing is left, nothing is stored and \<open>rv\<close> stays
  indeterminate (\<open>None\<close>). Otherwise it collects an optional sign, digits with at
  most one decimal point and, after at least one digit, an exponent letter with an
  optional sign and digits, and stops at the first character that does not fit. It
  stores 0 when the collected text is not a complete number (no digit, or an
  exponent letter without digits), the nearest \<^verbatim>\<open>double\<close> otherwise, and the largest
  finite \<^verbatim>\<open>double\<close> in place of an infinity.
\<close>

definition extract_double :: "string \<Rightarrow> double option" where
  "extract_double s =
     (let s1 = dropWhile isspace s
      in if s1 = [] then None
         else
           (let negative = (hd s1 = CHR ''-'');
                s2 = (if hd s1 = CHR ''-'' \<or> hd s1 = CHR ''+'' then tl s1 else s1);
                ip = takeWhile is_digit s2;
                s3 = dropWhile is_digit s2;
                point = (s3 \<noteq> [] \<and> hd s3 = CHR ''.'');
                fp = (if point then takeWhile is_digit (tl s3) else []);
                s4 = (if point then dropWhile is_digit (tl s3) else s3);
                sci = (ip @ fp \<noteq> [] \<and> s4 \<noteq> [] \<and> (hd s4 = CHR ''e'' \<or> hd s4 = CHR ''E''));
                s5 = tl s4;
                eneg = (s5 \<noteq> [] \<and> hd s5 = CHR ''-'');
                s6 = (if s5 \<noteq> [] \<and> (hd s5 = CHR ''-'' \<or> hd s5 = CHR ''+'') then tl s5 else s5);
                ed = takeWhile is_digit s6
            in if ip @ fp = [] \<or> (sci \<and> ed = []) then Some (Finite False 0 (- 1074))
               else
                 (let ex = (if sci then (if eneg then - int (from_dec ed) else int (from_dec ed))
                            else 0) - int (length fp);
                      (n, d) = shift 10 (from_dec (ip @ fp), 1) (- ex)
                  in Some (case nearest_double negative n d of
                             Infinity b \<Rightarrow> max_double b
                           | r \<Rightarrow> r))))"

definition convert_double :: "string \<Rightarrow> double option" where
  "convert_double s = extract_double s"

subsection \<open>The accessors\<close>

definition exists :: "TXmlConfig \<Rightarrow> string \<Rightarrow> bool" where
  "exists cfg path = (if 0 = count (mNodes cfg) (canonize path) then False else True)"

text \<open>
  The generic \<^verbatim>\<open>get<T>\<close>, with the conversion of the instance as a parameter, and
  its specialization for \<^verbatim>\<open>std::string\<close>.
\<close>

definition get :: "(string \<Rightarrow> 'a) \<Rightarrow> TXmlConfig \<Rightarrow> string \<Rightarrow> 'a \<Rightarrow> error + 'a" where
  "get convert cfg path dv =
     (if \<not> exists cfg path then Inr dv
      else map_sum id convert (at (mNodes cfg) (canonize path)))"

definition get_string :: "TXmlConfig \<Rightarrow> string \<Rightarrow> string \<Rightarrow> error + string" where
  "get_string cfg path dv =
     (if \<not> exists cfg path then Inr dv else at (mNodes cfg) (canonize path))"

text \<open>
  The generic \<^verbatim>\<open>set<T>\<close>, with \<^verbatim>\<open>convertTo<T>\<close> as a parameter, and its
  specializations for \<^verbatim>\<open>std::string\<close> and \<^verbatim>\<open>bool\<close>.
\<close>

definition set_generic :: "('a \<Rightarrow> string) \<Rightarrow> TXmlConfig \<Rightarrow> string \<Rightarrow> 'a \<Rightarrow> TXmlConfig" where
  "set_generic convertTo cfg path v =
     cfg\<lparr>mNodes := assign (mNodes cfg) (canonize path) (convertTo v)\<rparr>"

definition set_string :: "TXmlConfig \<Rightarrow> string \<Rightarrow> string \<Rightarrow> TXmlConfig" where
  "set_string cfg path v = cfg\<lparr>mNodes := assign (mNodes cfg) (canonize path) v\<rparr>"

definition set_bool :: "TXmlConfig \<Rightarrow> string \<Rightarrow> bool \<Rightarrow> TXmlConfig" where
  "set_bool cfg path bv =
     (let v = (if bv then ''true'' else ''false'')
      in cfg\<lparr>mNodes := assign (mNodes cfg) (canonize path) v\<rparr>)"

text \<open>
  \<^verbatim>\<open>std::getline(ss, str, delim)\<close>: it fails only at the end of the stream; otherwise
  it yields the text before the next delimiter and leaves the stream after that
  delimiter.
\<close>

definition getline :: "string \<Rightarrow> char \<Rightarrow> (string \<times> string) option" where
  "getline ss delim =
     (if ss = [] then None
      else Some (takeWhile (\<lambda>c. c \<noteq> delim) ss, drop 1 (dropWhile (\<lambda>c. c \<noteq> delim) ss)))"

function split_commas :: "string \<Rightarrow> string list \<Rightarrow> string list" where
  "split_commas ss elems =
     (case getline ss CHR '','' of
        None \<Rightarrow> elems
      | Some (str, ss') \<Rightarrow> split_commas ss' (elems @ [str]))"
  by pat_completeness auto
termination
proof (relation "measure (\<lambda>(ss, elems). length ss)")
  show "wf (measure (\<lambda>(ss, elems). length ss))" by simp
next
  fix ss :: string and elems :: "string list" and x2 :: "string \<times> string" and str ss'
  assume "getline ss CHR '','' = Some x2" and "(str, ss') = x2"
  then have "ss \<noteq> []" and "ss' = drop 1 (dropWhile (\<lambda>c. c \<noteq> CHR '','') ss)"
    by (auto simp: getline_def split: if_splits)
  moreover have "length (dropWhile (\<lambda>c. c \<noteq> CHR '','') ss) \<le> length ss"
    by (rule length_dropWhile_le)
  ultimately have "length ss' < length ss"
    by (cases ss) auto
  then show "((ss', elems @ [str]), (ss, elems)) \<in> measure (\<lambda>(ss, elems). length ss)"
    by simp
qed

declare split_commas.simps [simp del]

definition getVector ::
  "(string \<Rightarrow> 'a) \<Rightarrow> TXmlConfig \<Rightarrow> string \<Rightarrow> 'a list \<Rightarrow> error + 'a list" where
  "getVector convert cfg path dv =
     (if \<not> exists cfg path then Inr dv
      else
        (case at (mNodes cfg) (canonize path) of
           Inl e \<Rightarrow> Inl e
         | Inr val \<Rightarrow>
             (let val' = erase_ws val;
                  elems = split_commas val' []
              in Inr (map convert elems))))"

definition is_attribute :: "string \<Rightarrow> bool" where
  "is_attribute str = (str_find str attrDelim \<noteq> None)"

fun children_loop :: "store \<Rightarrow> string \<Rightarrow> string list \<Rightarrow> string list" where
  "children_loop [] path result = result"
| "children_loop ((k, v) # rest) path result =
     (let parent = substr0 k (length path)
      in if parent = k then children_loop rest path result
         else if parent = path \<and> \<not> is_attribute k then children_loop rest path (result @ [k])
         else children_loop rest path result)"

definition childrenOf :: "TXmlConfig \<Rightarrow> string \<Rightarrow> string list" where
  "childrenOf cfg path = children_loop (mNodes cfg) (canonize path) []"

subsection \<open>Notions used to state the properties\<close>

text \<open>Fields written one after the other with a comma between neighbours.\<close>

fun comma_join :: "string list \<Rightarrow> string" where
  "comma_join [] = []"
| "comma_join [f] = f"
| "comma_join (f # g # fs) = f @ '','' @ comma_join (g # fs)"

text \<open>
  Names that contain none of the characters the paths are built with. The markup
  allows "." and ":" in element names; "[" and the empty name it does not.
\<close>

definition name_ok :: "string \<Rightarrow> bool" where
  "name_ok n = (n \<noteq> [] \<and> CHR ''.'' \<notin> set n \<and> CHR '':'' \<notin> set n \<and> CHR ''['' \<notin> set n)"

fun names_ok :: "xml_node \<Rightarrow> bool" where
  "names_ok (XmlNode name content as cs) = (name_ok name \<and> (\<forall>c \<in> set cs. names_ok c))"

text \<open>The name of the root is not recorded, so only the nodes below it matter.\<close>

definition tree_ok :: "xml_node \<Rightarrow> bool" where
  "tree_ok root = (\<forall>c \<in> set (GetChildren root). names_ok c)"

text \<open>
  Flattening as the specification words it: the first occurrence of a name among the
  children of a node is stored under the bare path, and the k-th later occurrence
  under the bare path followed by [k]. The second argument of \<open>flattenChildren\<close>
  lists the names of the siblings already visited.
\<close>

definition occurrence_path :: "string \<Rightarrow> string \<Rightarrow> nat \<Rightarrow> string" where
  "occurrence_path parent name k =
     (let bare = (if parent \<noteq> [] then parent @ pathDelim else parent) @ name
      in if k = 0 then bare else bare @ fmt_index k)"

fun flattenNode :: "store \<Rightarrow> xml_node \<Rightarrow> string \<Rightarrow> store"
  and flattenChildren :: "store \<Rightarrow> xml_node list \<Rightarrow> string list \<Rightarrow> string \<Rightarrow> store" where
  "flattenNode m (XmlNode name content as cs) path =
     (let node_content = (case content of Some c \<Rightarrow> c | None \<Rightarrow> valDNE)
      in flattenChildren (mapAttrs (assign m path node_content) path as) cs [] path)"
| "flattenChildren m [] seen parent = m"
| "flattenChildren m (child # rest) seen parent =
     flattenChildren
       (flattenNode m child
          (occurrence_path parent (GetNodeName child) (count_list seen (GetNodeName child))))
       rest (seen @ [GetNodeName child]) parent"

definition flatten_by_occurrence :: "xml_node \<Rightarrow> store" where
  "flatten_by_occurrence root = flattenNode [] root []"

text \<open>
  The invariant of the loop over the children of a node recorded under \<open>parent\<close>:
  the stored keys below \<open>parent\<close> start with a segment taken by one of the siblings
  visited so far, and every such segment is a stored key.
\<close>

definition child_prefix :: "string \<Rightarrow> string" where
  "child_prefix parent = (if parent \<noteq> [] then parent @ pathDelim else parent)"

definition first_segment :: "string \<Rightarrow> string" where
  "first_segment s = takeWhile (\<lambda>c. c \<noteq> CHR ''.'' \<and> c \<noteq> CHR '':'') s"

definition taken :: "string list \<Rightarrow> string set" where
  "taken seen = set seen \<union> {n @ fmt_index i | n i. 1 \<le> i \<and> i < count_list seen n}"

definition siblings_inv :: "store \<Rightarrow> string \<Rightarrow> string list \<Rightarrow> bool" where
  "siblings_inv m parent seen =
     ((\<forall>k \<in> fst ` set m. \<forall>r. k = child_prefix parent @ r \<longrightarrow>
          first_segment r = [] \<or> first_segment r \<in> taken seen) \<and>
      (\<forall>s \<in> taken seen. child_prefix parent @ s \<in> fst ` set m))"

text \<open>The keys at or below a path: the path itself, its attributes and its descendants.\<close>

definition below :: "string \<Rightarrow> string set" where
  "below q = {q @ t | t. t = [] \<or> hd t = CHR ''.'' \<or> hd t = CHR '':''}"

text \<open>
  Two documents used as examples: three siblings named Item below an element Parent,
  and an element whose name contains the path delimiter beside an element A with two
  children named Item.
\<close>

definition items_tree :: xml_node where
  "items_tree =
     XmlNode ''config'' None []
       [XmlNode ''Parent'' None []
          [XmlNode ''Item'' (Some ''a'') [] [], XmlNode ''Item'' (Some ''b'') [] [],
           XmlNode ''Item'' (Some ''c'') [] []]]"

definition dotted_tree :: xml_node where
  "dotted_tree =
     XmlNode ''config'' None []
       [XmlNode ''A.Item'' (Some ''x'') [] [],
        XmlNode ''A'' None []
          [XmlNode ''Item'' (Some ''a'') [] [], XmlNode ''Item'' (Some ''b'') [] []]]"


section \<open>Properties\<close>

subsection \<open>The store as a finite map\<close>

lemma map_of_assign: "map_of (assign m k v) = (map_of m)(k \<mapsto> v)"
  by (induction m k v rule: assign.induct) (auto simp: fun_upd_twist)

lemma count_eq_0_iff: "count m k = 0 \<longleftrightarrow> map_of m k = None"
  by (simp add: count_def split: option.splits)

lemma exists_iff: "exists cfg p \<longleftrightarrow> map_of (mNodes cfg) (canonize p) \<noteq> None"
  by (auto simp: exists_def count_eq_0_iff)

subsection \<open>Text access\<close>

text \<open>
  Claim C4. For every path, text default and store: when the path does not exist,
  \<^verbatim>\<open>get<std::string>\<close> returns the default itself; when it exists, it returns
  the text stored under the canonical path, as it is stored. Neither branch converts
  anything, and the lookup never throws.
\<close>

theorem get_string_default_or_stored:
  "(\<not> exists cfg p \<longrightarrow> get_string cfg p t = Inr t) \<and>
   (exists cfg p \<longrightarrow>
      (\<exists>v. map_of (mNodes cfg) (canonize p) = Some v \<and> get_string cfg p t = Inr v))"
  by (auto simp: get_string_def exists_iff at_def)

theorem get_string_default_or_stored_witness:
  "\<not> exists \<lparr>mErrorParsing = False, mNodes = [(''a.b'', '' 1 x'')]\<rparr> ''c'' \<and>
   get_string \<lparr>mErrorParsing = False, mNodes = [(''a.b'', '' 1 x'')]\<rparr> ''c'' ''dflt''
     = Inr ''dflt'' \<and>
   exists \<lparr>mErrorParsing = False, mNodes = [(''a.b'', '' 1 x'')]\<rparr> ''a[0] .b'' \<and>
   get_string \<lparr>mErrorParsing = False, mNodes = [(''a.b'', '' 1 x'')]\<rparr> ''a[0] .b'' ''dflt''
     = Inr '' 1 x''"
proof -
  let ?cfg = "\<lparr>mErrorParsing = False, mNodes = [(''a.b'', '' 1 x'')]\<rparr>"
  have c1: "canonize ''c'' = ''c''" and c2: "canonize ''a[0] .b'' = ''a.b''"
    by (simp_all add: canonize_def erase_ws_def isspace_def str_erase_def)
  have e1: "\<not> exists ?cfg ''c''" and e2: "exists ?cfg ''a[0] .b''"
    by (simp_all add: exists_iff c1 c2)
  from get_string_default_or_stored [of ?cfg "''c''" "''dflt''"] e1
  have "get_string ?cfg ''c'' ''dflt'' = Inr ''dflt''" by blast
  moreover from get_string_default_or_stored [of ?cfg "''a[0] .b''" "''dflt''"] e2
  have "get_string ?cfg ''a[0] .b'' ''dflt'' = Inr '' 1 x''" by (auto simp: c2)
  ultimately show ?thesis using e1 e2 by simp
qed

subsection \<open>Boolean conversion\<close>

text \<open>
  Claim C5. \<^verbatim>\<open>convert<bool>\<close> maps the text "true" to true and the text "false"
  to false; every other text goes through the integer conversion and the result is
  whether that integer differs from 0. So "1" is true and "0" is false, and a text
  that differs from the literals in case or by a blank, such as "True" or " true",
  is read as an integer (here 0, hence false).
\<close>

theorem convert_bool_literals_else_integer:
  "convert_bool ''true'' = Some True \<and>
   convert_bool ''false'' = Some False \<and>
   (\<forall>s. s \<noteq> ''true'' \<and> s \<noteq> ''false'' \<longrightarrow>
      convert_bool s = map_option (\<lambda>i. i \<noteq> 0) (convert_int s)) \<and>
   convert_int ''1'' = Some 1 \<and> convert_bool ''1'' = Some True \<and>
   convert_int ''0'' = Some 0 \<and> convert_bool ''0'' = Some False \<and>
   convert_bool ''True'' = Some False \<and> convert_bool '' true'' = Some False"
  by (simp add: convert_bool_def convert_int_def extract_int_def isspace_def is_digit_def
      from_dec_def digit_val_def INT_MIN_def INT_MAX_def)

theorem convert_bool_literals_else_integer_witness:
  "''2'' \<noteq> ''true'' \<and> ''2'' \<noteq> ''false'' \<and> convert_bool ''2'' = Some True \<and>
   convert_int ''2'' = Some 2"
proof -
  have "convert_int ''2'' = Some 2"
    by (simp add: convert_int_def extract_int_def isspace_def is_digit_def
      from_dec_def digit_val_def INT_MIN_def INT_MAX_def)
  with convert_bool_literals_else_integer show ?thesis by simp
qed

subsection \<open>Canonical paths\<close>

lemma str_find_Some:
  "str_find s pat = Some i \<Longrightarrow>
     i + length pat \<le> length s \<and> take (length pat) (drop i s) = pat"
proof (induction s arbitrary: i)
  case Nil
  then show ?case by (simp split: if_splits)
next
  case (Cons c cs)
  show ?case
  proof (cases "take (length pat) (c # cs) = pat")
    case True
    with Cons.prems have "i = 0" by simp
    moreover have "length pat \<le> length (c # cs)"
    proof -
      have "length (take (length pat) (c # cs)) = length pat" using True by simp
      then show ?thesis by (simp del: take_Suc_Cons)
    qed
    ultimately show ?thesis using True by simp
  next
    case False
    with Cons.prems obtain j where "str_find cs pat = Some j" and "i = Suc j" by auto
    with Cons.IH [of j] show ?thesis by simp
  qed
qed

lemma erase_ws_canonize: "erase_ws (canonize p) = canonize p"
proof -
  have "\<forall>c \<in> set (canonize p). \<not> isspace c"
    by (auto simp: canonize_def Let_def str_erase_def erase_ws_def
        dest: in_set_takeD in_set_dropD split: option.splits)
  then show ?thesis unfolding erase_ws_def by (simp add: filter_id_conv)
qed

lemma canonize_not_found: "str_find (erase_ws p) ''[0]'' = None \<Longrightarrow> canonize p = erase_ws p"
  by (simp add: canonize_def str_erase_def)

lemma canonize_found:
  "str_find (erase_ws p) ''[0]'' = Some i \<Longrightarrow>
     canonize p = take i (erase_ws p) @ drop (i + 3) (erase_ws p)"
  by (simp add: canonize_def str_erase_def Let_def)

text \<open>
  Claim C2, as stated, fails: canonicalization removes one occurrence of "[0]", so a
  path with an index 0 on two segments loses the second one only when it is
  canonicalized again.
\<close>

theorem canonize_not_idempotent:
  "canonize ''A[0].B[0]'' = ''A.B[0]'' \<and> canonize (canonize ''A[0].B[0]'') = ''A.B'' \<and>
   canonize (canonize ''A[0].B[0]'') \<noteq> canonize ''A[0].B[0]''"
  by (simp add: canonize_def erase_ws_def isspace_def str_erase_def)

text \<open>
  Claim C2, amended. Canonicalizing a canonical path changes nothing exactly when that
  canonical path no longer contains the text "[0]"; the removal of white space is
  idempotent on its own.
\<close>

theorem canonize_idempotent_iff:
  "(canonize (canonize p) = canonize p \<longleftrightarrow> str_find (canonize p) ''[0]'' = None) \<and>
   erase_ws (canonize p) = canonize p"
proof (cases "str_find (canonize p) ''[0]''")
  case None
  then have "str_find (erase_ws (canonize p)) ''[0]'' = None"
    by (simp add: erase_ws_canonize)
  then have "canonize (canonize p) = canonize p"
    by (simp add: canonize_not_found erase_ws_canonize)
  with None show ?thesis by (simp add: erase_ws_canonize)
next
  case (Some i)
  then have f: "str_find (erase_ws (canonize p)) ''[0]'' = Some i"
    by (simp add: erase_ws_canonize)
  from str_find_Some [OF Some] have "i + 3 \<le> length (canonize p)" by simp
  then have "length (take i (canonize p) @ drop (i + 3) (canonize p)) < length (canonize p)"
    by simp
  moreover have "canonize (canonize p) = take i (canonize p) @ drop (i + 3) (canonize p)"
    using canonize_found [OF f] by (simp add: erase_ws_canonize)
  ultimately have "canonize (canonize p) \<noteq> canonize p" by (metis less_irrefl)
  with Some show ?thesis by (simp add: erase_ws_canonize)
qed

theorem canonize_idempotent_iff_witness:
  "str_find (canonize ''a[0] . b'') ''[0]'' = None \<and>
   canonize (canonize ''a[0] . b'') = canonize ''a[0] . b'' \<and>
   canonize ''a[0] . b'' = ''a.b''"
proof -
  have c: "canonize ''a[0] . b'' = ''a.b''"
    by (simp add: canonize_def erase_ws_def isspace_def str_erase_def)
  have "str_find (canonize ''a[0] . b'') ''[0]'' = None" by (simp add: c)
  with canonize_idempotent_iff [of "''a[0] . b''"] c show ?thesis by simp
qed

lemma str_find_append_pat:
  "str_find s ''[0]'' = None \<Longrightarrow> str_find (s @ ''[0]'') ''[0]'' = Some (length s)"
proof (induction s)
  case Nil
  then show ?case by simp
next
  case (Cons c cs)
  from Cons.prems have nf: "take 3 (c # cs) \<noteq> ''[0]''"
    and rest: "str_find cs ''[0]'' = None"
    by (auto simp: eval_nat_numeral split: if_splits)
  have "take 3 (c # cs @ ''[0]'') \<noteq> ''[0]''"
  proof (cases cs)
    case Nil
    then show ?thesis by simp
  next
    case (Cons d ds)
    with nf show ?thesis by (cases ds) (auto simp: eval_nat_numeral)
  qed
  with Cons.IH [OF rest] show ?case by (simp add: eval_nat_numeral)
qed

text \<open>
  Claim C3. A path without sibling collisions carries no index, so the text "[0]" does
  not occur in it (white space aside). For every such path, the path and the path
  followed by "[0]" have the same canonical form.
\<close>

theorem canonize_zero_index:
  "str_find (erase_ws p) ''[0]'' = None \<Longrightarrow> canonize p = canonize (p @ ''[0]'')"
proof -
  assume nf: "str_find (erase_ws p) ''[0]'' = None"
  have e: "erase_ws (p @ ''[0]'') = erase_ws p @ ''[0]''"
    by (simp add: erase_ws_def isspace_def)
  from str_find_append_pat [OF nf]
  have "str_find (erase_ws (p @ ''[0]'')) ''[0]'' = Some (length (erase_ws p))"
    by (simp only: e)
  from canonize_found [OF this] have "canonize (p @ ''[0]'') = erase_ws p"
    by (simp add: e)
  with canonize_not_found [OF nf] show ?thesis by simp
qed

theorem canonize_zero_index_witness:
  "str_find (erase_ws ''Level0 .Level1'') ''[0]'' = None \<and>
   canonize ''Level0 .Level1'' = canonize (''Level0 .Level1'' @ ''[0]'') \<and>
   canonize ''Level0 .Level1'' = ''Level0.Level1''"
proof -
  have nf: "str_find (erase_ws ''Level0 .Level1'') ''[0]'' = None"
    by (simp add: erase_ws_def isspace_def)
  have "canonize ''Level0 .Level1'' = ''Level0.Level1''"
    by (simp add: canonize_def erase_ws_def isspace_def str_erase_def)
  with canonize_zero_index [OF nf] nf show ?thesis by simp
qed

subsection \<open>Loading a document that does not parse\<close>

text \<open>
  Claim C9. When the parser rejects the source, \<^verbatim>\<open>load\<close> returns (it raises
  nothing) with the error flag set and an empty mapping, so that afterwards no path
  exists and every accessor returns the default it is given. The flag is persistent:
  no later \<^verbatim>\<open>load\<close> clears it.
\<close>

theorem load_parse_failure:
  assumes "(if asString then ParseString src else ParseFile src) = None"
  shows "mErrorParsing (load ParseString ParseFile cfg src asString) \<and>
         mNodes (load ParseString ParseFile cfg src asString) = [] \<and>
         (\<forall>p. \<not> exists (load ParseString ParseFile cfg src asString) p) \<and>
         (\<forall>p t. get_string (load ParseString ParseFile cfg src asString) p t = Inr t) \<and>
         (\<forall>convert p dv.
            get convert (load ParseString ParseFile cfg src asString) p dv = Inr dv) \<and>
         (\<forall>convert p dv.
            getVector convert (load ParseString ParseFile cfg src asString) p dv = Inr dv) \<and>
         (\<forall>ParseString' ParseFile' src' asString'.
            mErrorParsing (load ParseString' ParseFile'
              (load ParseString ParseFile cfg src asString) src' asString'))"
proof -
  let ?cfg = "load ParseString ParseFile cfg src asString"
  from assms have flag: "mErrorParsing ?cfg" and empty: "mNodes ?cfg = []"
    by (simp_all add: load_def)
  from empty have ne: "\<not> exists ?cfg p" for p
    by (simp add: exists_iff)
  have keep: "mErrorParsing (load PS PF c s b)" if "mErrorParsing c" for PS PF c s b
    using that by (simp add: load_def Let_def split: option.splits)
  show ?thesis
    using flag empty ne keep [OF flag]
    by (simp add: get_string_def get_def getVector_def)
qed

theorem load_parse_failure_witness:
  "(if True then (\<lambda>s. None) ''<a>'' else (\<lambda>s. None) ''<a>'') = (None :: xml_node option) \<and>
   mErrorParsing (load (\<lambda>s. None) (\<lambda>s. None)
      \<lparr>mErrorParsing = False, mNodes = [(''k'', ''v'')]\<rparr> ''<a>'' True) \<and>
   mNodes (load (\<lambda>s. None) (\<lambda>s. None)
      \<lparr>mErrorParsing = False, mNodes = [(''k'', ''v'')]\<rparr> ''<a>'' True) = [] \<and>
   \<not> exists (load (\<lambda>s. None) (\<lambda>s. None)
      \<lparr>mErrorParsing = False, mNodes = [(''k'', ''v'')]\<rparr> ''<a>'' True) ''k'' \<and>
   get_string (load (\<lambda>s. None) (\<lambda>s. None)
      \<lparr>mErrorParsing = False, mNodes = [(''k'', ''v'')]\<rparr> ''<a>'' True) ''k'' ''d'' = Inr ''d''"
proof -
  have h: "(if True then (\<lambda>s. None) ''<a>'' else (\<lambda>s. None) ''<a>'')
      = (None :: xml_node option)"
    by simp
  from load_parse_failure [where asString = True and ParseString = "\<lambda>s. None"
      and ParseFile = "\<lambda>s. None" and src = "''<a>''"
      and cfg = "\<lparr>mErrorParsing = False, mNodes = [(''k'', ''v'')]\<rparr>"
      and 'a = string and 'b = string, OF h]
  show ?thesis by simp
qed

subsection \<open>The store stays in key order\<close>

lemma store_ok_iff: "store_ok m \<longleftrightarrow> sorted_wrt (<) (map fst m)"
  by (auto simp: store_ok_def strict_sorted_iff)

lemma keys_assign: "fst ` set (assign m k v) = insert k (fst ` set m)"
  by (induction m k v rule: assign.induct) auto

lemma store_ok_assign: "store_ok m \<Longrightarrow> store_ok (assign m k v)"
proof (induction m k v rule: assign.induct)
  case (1 k v)
  then show ?case by (simp add: store_ok_iff)
next
  case (2 k' v' m k v)
  show ?case
  proof (cases "k = k'")
    case True
    with 2 show ?thesis by (simp add: store_ok_iff)
  next
    case False
    show ?thesis
    proof (cases "k < k'")
      case True
      with 2 False show ?thesis by (auto simp: store_ok_iff)
    next
      case nl: False
      with False have "k' < k" by simp
      moreover from 2 False nl have "store_ok (assign m k v)" by (simp add: store_ok_iff)
      ultimately show ?thesis using 2(2) False nl keys_assign [of m k v]
        by (auto simp: store_ok_iff)
    qed
  qed
qed

lemma store_ok_mapAttrs: "store_ok m \<Longrightarrow> store_ok (mapAttrs m path as)"
  by (induction m path as rule: mapAttrs.induct) (auto simp: store_ok_assign)

lemma store_ok_recordNode: "store_ok m \<Longrightarrow> store_ok (snd (recordNode m path c))"
  by (simp add: recordNode_def Let_def store_ok_assign)

lemma store_ok_mapFile:
  "store_ok m \<Longrightarrow> store_ok (mapFile m node level path)"
  "store_ok m \<Longrightarrow> store_ok (mapChildren m cs level path)"
proof (induction m node level path and m cs level path rule: mapFile_mapChildren.induct)
  case (1 m name content as cs level path)
  let ?path2 = "(if level > 1 then (if path \<noteq> [] then path @ pathDelim else path) @ name
                 else (if path \<noteq> [] then path @ pathDelim else path))"
  let ?c = "(case content of Some c \<Rightarrow> c | None \<Rightarrow> valDNE)"
  obtain path3 m1 where r: "recordNode m ?path2 ?c = (path3, m1)"
    by (cases "recordNode m ?path2 ?c")
  with store_ok_recordNode [OF 1(2), of ?path2 ?c] have "store_ok m1" by simp
  then have "store_ok (mapAttrs m1 path3 as)" by (rule store_ok_mapAttrs)
  with 1(1) r show ?case by (simp add: Let_def)
next
  case (2 m level path)
  then show ?case by simp
next
  case (3 m child rest level path)
  then show ?case by simp
qed

lemma store_ok_load: "store_ok (mNodes (load ParseString ParseFile cfg src asString))"
proof -
  have "store_ok []" by (simp add: store_ok_def)
  then have "store_ok (mapFile [] r 1 [])" for r by (rule store_ok_mapFile)
  then show ?thesis
    by (cases "if asString then ParseString src else ParseFile src")
      (simp_all add: load_def Let_def store_ok_def)
qed

lemma store_ok_set:
  assumes "store_ok (mNodes cfg)"
  shows "store_ok (mNodes (set_string cfg p v))"
    and "store_ok (mNodes (set_bool cfg p b))"
    and "store_ok (mNodes (set_generic convertTo cfg p x))"
  using assms by (simp_all add: set_string_def set_bool_def set_generic_def store_ok_assign)

subsection \<open>Children of a path\<close>

lemma is_attribute_iff: "is_attribute k \<longleftrightarrow> CHR '':'' \<in> set k"
  unfolding is_attribute_def attrDelim_def
  by (induction k) auto

lemma take_eq_self_iff: "take n k = k \<longleftrightarrow> length k \<le> n"
  by (metis length_take min.absorb_iff1 take_all min.commute)

lemma children_loop_filter:
  "children_loop m q acc =
     acc @ filter (\<lambda>k. take (length q) k = q \<and> length q < length k \<and> CHR '':'' \<notin> set k)
             (map fst m)"
  by (induction m arbitrary: acc)
    (auto simp: substr0_def Let_def is_attribute_iff take_eq_self_iff)

text \<open>
  Claim C8. \<^verbatim>\<open>childrenOf\<close> canonicalizes the query and returns the stored keys, in
  the order of the store, that start with the canonical query character by character,
  are strictly longer than it and contain no ":"; nothing else. The store of every
  configuration is in ascending lexicographic key order (it is after \<open>load\<close> and
  stays so under the setters), and then so is the result. The match ignores segment
  boundaries: the witness has the key "Foo2" among the children of "Foo".
\<close>

theorem childrenOf_prefix_filter:
  "childrenOf cfg p =
     filter (\<lambda>k. take (length (canonize p)) k = canonize p \<and>
                 length (canonize p) < length k \<and> CHR '':'' \<notin> set k)
       (map fst (mNodes cfg)) \<and>
   set (childrenOf cfg p) =
     {k \<in> fst ` set (mNodes cfg). take (length (canonize p)) k = canonize p \<and>
        length (canonize p) < length k \<and> CHR '':'' \<notin> set k} \<and>
   (store_ok (mNodes cfg) \<longrightarrow> sorted (childrenOf cfg p) \<and> distinct (childrenOf cfg p))"
proof -
  have eq: "childrenOf cfg p =
     filter (\<lambda>k. take (length (canonize p)) k = canonize p \<and>
                 length (canonize p) < length k \<and> CHR '':'' \<notin> set k)
       (map fst (mNodes cfg))"
    by (simp add: childrenOf_def children_loop_filter)
  have "sorted (childrenOf cfg p) \<and> distinct (childrenOf cfg p)" if "store_ok (mNodes cfg)"
    using that unfolding eq store_ok_def by (simp add: sorted_wrt_filter)
  with eq show ?thesis by auto
qed

theorem childrenOf_prefix_filter_witness:
  "store_ok [(''Fo'', ''5''), (''Foo'', ''1''), (''Foo.a'', ''2''), (''Foo.a:x'', ''3''),
      (''Foo2'', ''4'')] \<and>
   childrenOf \<lparr>mErrorParsing = False, mNodes =
       [(''Fo'', ''5''), (''Foo'', ''1''), (''Foo.a'', ''2''), (''Foo.a:x'', ''3''),
        (''Foo2'', ''4'')]\<rparr>
     ''Foo [0]'' = [''Foo.a'', ''Foo2''] \<and>
   sorted [''Foo.a'', ''Foo2'']"
proof -
  let ?m = "[(''Fo'', ''5''), (''Foo'', ''1''), (''Foo.a'', ''2''), (''Foo.a:x'', ''3''),
      (''Foo2'', ''4'')]"
  let ?cfg = "\<lparr>mErrorParsing = False, mNodes = ?m\<rparr>"
  have ok: "store_ok ?m" by (simp add: store_ok_def)
  have c: "canonize ''Foo [0]'' = ''Foo''"
    by (simp add: canonize_def erase_ws_def isspace_def str_erase_def)
  from childrenOf_prefix_filter [of ?cfg "''Foo [0]''"] ok
  have "childrenOf ?cfg ''Foo [0]'' = [''Foo.a'', ''Foo2''] \<and>
        sorted (childrenOf ?cfg ''Foo [0]'')"
    by (simp add: c)
  with ok show ?thesis by simp
qed

subsection \<open>Vectors\<close>

lemma split_commas_Nil: "split_commas [] acc = acc"
  by (subst split_commas.simps) (simp add: getline_def)

lemma split_commas_step:
  "ss \<noteq> [] \<Longrightarrow>
     split_commas ss acc =
       split_commas (drop 1 (dropWhile (\<lambda>c. c \<noteq> CHR '','') ss))
         (acc @ [takeWhile (\<lambda>c. c \<noteq> CHR '','') ss])"
  by (subst split_commas.simps) (simp add: getline_def)

lemma takeWhile_field: "CHR '','' \<notin> set f \<Longrightarrow> takeWhile (\<lambda>c. c \<noteq> CHR '','') (f @ rest) = f @ takeWhile (\<lambda>c. c \<noteq> CHR '','') rest"
  by (induction f) auto

lemma dropWhile_field: "CHR '','' \<notin> set f \<Longrightarrow> dropWhile (\<lambda>c. c \<noteq> CHR '','') (f @ rest) = dropWhile (\<lambda>c. c \<noteq> CHR '','') rest"
  by (induction f) auto

lemma takeWhile_all: "CHR '','' \<notin> set f \<Longrightarrow> takeWhile (\<lambda>c. c \<noteq> CHR '','') f = f"
  by (induction f) auto

lemma dropWhile_all: "CHR '','' \<notin> set f \<Longrightarrow> dropWhile (\<lambda>c. c \<noteq> CHR '','') f = []"
  by (induction f) auto

lemma split_commas_field:
  assumes "CHR '','' \<notin> set f"
  shows "split_commas (f @ CHR '','' # rest) acc = split_commas rest (acc @ [f])"
  using assms by (simp add: split_commas_step takeWhile_field dropWhile_field)

lemma split_commas_last:
  assumes "CHR '','' \<notin> set f" and "f \<noteq> []"
  shows "split_commas f acc = acc @ [f]"
  using assms by (simp add: split_commas_step split_commas_Nil takeWhile_all dropWhile_all)

lemma split_commas_join:
  "fs \<noteq> [] \<Longrightarrow> last fs \<noteq> [] \<Longrightarrow> \<forall>f \<in> set fs. CHR '','' \<notin> set f \<Longrightarrow>
     split_commas (comma_join fs) acc = acc @ fs"
proof (induction fs arbitrary: acc rule: comma_join.induct)
  case 1
  then show ?case by simp
next
  case (2 f)
  then show ?case by (simp add: split_commas_last)
next
  case (3 f g fs)
  from 3 have "split_commas (comma_join (g # fs)) (acc @ [f]) = (acc @ [f]) @ g # fs"
    by simp
  with 3(4) show ?case by (simp add: split_commas_field)
qed

lemma split_commas_acc: "split_commas s acc = acc @ split_commas s []"
proof (induction "length s" arbitrary: s acc rule: less_induct)
  case less
  show ?case
  proof (cases "s = []")
    case True
    then show ?thesis by (simp add: split_commas_Nil)
  next
    case False
    let ?r = "drop 1 (dropWhile (\<lambda>c. c \<noteq> CHR '','') s)"
    let ?f = "takeWhile (\<lambda>c. c \<noteq> CHR '','') s"
    have "length (dropWhile (\<lambda>c. c \<noteq> CHR '','') s) \<le> length s"
      by (rule length_dropWhile_le)
    with False have "length ?r < length s" by (cases s) auto
    from less [OF this, of "acc @ [?f]"] less [OF this, of "[?f]"]
    show ?thesis by (simp add: split_commas_step [OF False])
  qed
qed

lemma comma_join_Cons: "comma_join (f # fs) = (if fs = [] then f else f @ '','' @ comma_join fs)"
  by (cases fs) auto

lemma split_commas_nonempty: "s \<noteq> [] \<Longrightarrow> split_commas s [] \<noteq> []"
  by (subst split_commas_step, assumption, subst split_commas_acc) simp

lemma split_commas_fields: "f \<in> set (split_commas s []) \<Longrightarrow> CHR '','' \<notin> set f"
proof (induction "length s" arbitrary: s rule: less_induct)
  case less
  show ?case
  proof (cases "s = []")
    case True
    with less.prems show ?thesis by (simp add: split_commas_Nil)
  next
    case False
    let ?r = "drop 1 (dropWhile (\<lambda>c. c \<noteq> CHR '','') s)"
    let ?f = "takeWhile (\<lambda>c. c \<noteq> CHR '','') s"
    have "length (dropWhile (\<lambda>c. c \<noteq> CHR '','') s) \<le> length s"
      by (rule length_dropWhile_le)
    with False have lt: "length ?r < length s" by (cases s) auto
    have "split_commas s [] = ?f # split_commas ?r []"
      by (subst split_commas_step [OF False], subst split_commas_acc) simp
    with less.prems have "f = ?f \<or> f \<in> set (split_commas ?r [])" by auto
    then show ?thesis
    proof
      assume "f = ?f"
      then show ?thesis by (auto dest: set_takeWhileD)
    next
      assume "f \<in> set (split_commas ?r [])"
      with less.hyps [OF lt] show ?thesis by simp
    qed
  qed
qed

lemma comma_join_split:
  "comma_join (split_commas s []) = (if s \<noteq> [] \<and> last s = CHR '','' then butlast s else s)"
proof (induction "length s" arbitrary: s rule: less_induct)
  case less
  show ?case
  proof (cases "CHR '','' \<in> set s")
    case False
    show ?thesis
    proof (cases "s = []")
      case True
      then show ?thesis by (simp add: split_commas_Nil)
    next
      case ne: False
      with False have "last s \<noteq> CHR '',''" using last_in_set by metis
      with False ne show ?thesis by (simp add: split_commas_last)
    qed
  next
    case True
    then obtain f ds where s: "s = f @ CHR '','' # ds" and f: "CHR '','' \<notin> set f"
      by (meson split_list_first)
    have sp: "split_commas s [] = f # split_commas ds []"
      unfolding s using f by (subst split_commas_field, assumption, subst split_commas_acc) simp
    show ?thesis
    proof (cases "ds = []")
      case True
      with sp s show ?thesis by (simp add: split_commas_Nil)
    next
      case False
      from s have "length ds < length s" by simp
      from less [OF this] False
      have ih: "comma_join (split_commas ds []) = (if last ds = CHR '','' then butlast ds else ds)"
        by simp
      from False have "comma_join (split_commas s []) = f @ '','' @ comma_join (split_commas ds [])"
        using sp split_commas_nonempty [OF False] by (simp add: comma_join_Cons)
      with ih False show ?thesis by (simp add: s butlast_append)
    qed
  qed
qed


text \<open>
  Claim C7. \<^verbatim>\<open>getVector\<close> returns the default vector when the path does not
  exist. Otherwise it removes all white space from the stored text, cuts it at the
  commas and converts the fields, in their order in the text, with the conversion of
  the element type (the one \<^verbatim>\<open>get\<close> uses). Cutting returns the fields of any
  comma-separated text whose last field is not empty, empty fields between two commas
  included; on every text its fields have no comma and, joined by commas, give the
  text back (less one final comma). The stored text "50, 0, 1" read as integers is
  50, 0, 1.
\<close>

theorem getVector_split_convert:
  "(\<not> exists cfg p \<longrightarrow> getVector convert cfg p dv = Inr dv) \<and>
   (exists cfg p \<longrightarrow>
      (\<exists>val. map_of (mNodes cfg) (canonize p) = Some val \<and>
         getVector convert cfg p dv = Inr (map convert (split_commas (erase_ws val) [])))) \<and>
   (\<forall>fs. fs \<noteq> [] \<and> last fs \<noteq> [] \<and> (\<forall>f \<in> set fs. CHR '','' \<notin> set f) \<longrightarrow>
      split_commas (comma_join fs) [] = fs) \<and>
   (\<forall>s. (\<forall>f \<in> set (split_commas s []). CHR '','' \<notin> set f) \<and>
      comma_join (split_commas s []) =
        (if s \<noteq> [] \<and> last s = CHR '','' then butlast s else s)) \<and>
   map convert_int (split_commas (erase_ws ''50, 0, 1'') []) = [Some 50, Some 0, Some 1]"
proof -
  have a: "\<not> exists cfg p \<longrightarrow> getVector convert cfg p dv = Inr dv"
    by (simp add: getVector_def)
  have b: "exists cfg p \<longrightarrow>
      (\<exists>val. map_of (mNodes cfg) (canonize p) = Some val \<and>
         getVector convert cfg p dv = Inr (map convert (split_commas (erase_ws val) [])))"
    by (auto simp: getVector_def exists_iff at_def)
  have c: "\<forall>fs. fs \<noteq> [] \<and> last fs \<noteq> [] \<and> (\<forall>f \<in> set fs. CHR '','' \<notin> set f) \<longrightarrow>
      split_commas (comma_join fs) [] = fs"
    using split_commas_join [where acc = "[]"] by simp
  have d: "\<forall>s. (\<forall>f \<in> set (split_commas s []). CHR '','' \<notin> set f) \<and>
      comma_join (split_commas s []) =
        (if s \<noteq> [] \<and> last s = CHR '','' then butlast s else s)"
    using split_commas_fields comma_join_split by blast
  have e: "erase_ws ''50, 0, 1'' = ''50,0,1''"
    by (simp add: erase_ws_def isspace_def)
  have "split_commas ''50,0,1'' [] = [''50'', ''0'', ''1'']"
    using split_commas_join [of "[''50'', ''0'', ''1'']" "[]"] by simp
  moreover have "map convert_int [''50'', ''0'', ''1''] = [Some 50, Some 0, Some 1]"
    by (simp add: convert_int_def extract_int_def isspace_def is_digit_def
      from_dec_def digit_val_def INT_MIN_def INT_MAX_def)
  ultimately have f: "map convert_int (split_commas (erase_ws ''50, 0, 1'') []) =
      [Some 50, Some 0, Some 1]"
    by (simp add: e)
  from a b c d f show ?thesis by blast
qed

theorem getVector_split_convert_witness:
  "exists \<lparr>mErrorParsing = False, mNodes = [(''h:bins-x'', ''50, 0, 1'')]\<rparr> ''h : bins-x'' \<and>
   getVector convert_int \<lparr>mErrorParsing = False, mNodes = [(''h:bins-x'', ''50, 0, 1'')]\<rparr>
     ''h : bins-x'' [] = Inr [Some 50, Some 0, Some 1] \<and>
   \<not> exists \<lparr>mErrorParsing = False, mNodes = [(''h:bins-x'', ''50, 0, 1'')]\<rparr> ''g'' \<and>
   getVector convert_int \<lparr>mErrorParsing = False, mNodes = [(''h:bins-x'', ''50, 0, 1'')]\<rparr>
     ''g'' [Some 7] = Inr [Some 7] \<and>
   split_commas (comma_join [''a'', [], ''b'']) [] = [''a'', [], ''b''] \<and>
   comma_join (split_commas ''a,,b,'' []) = ''a,,b''"
proof -
  let ?cfg = "\<lparr>mErrorParsing = False, mNodes = [(''h:bins-x'', ''50, 0, 1'')]\<rparr>"
  have c1: "canonize ''h : bins-x'' = ''h:bins-x''" and c2: "canonize ''g'' = ''g''"
    by (simp_all add: canonize_def erase_ws_def isspace_def str_erase_def)
  have e1: "exists ?cfg ''h : bins-x''" and e2: "\<not> exists ?cfg ''g''"
    by (simp_all add: exists_iff c1 c2)
  note t1 = getVector_split_convert [of ?cfg "''h : bins-x''" convert_int "[]"]
  note t2 = getVector_split_convert [of ?cfg "''g''" convert_int "[Some 7]"]
  from t1 e1 have "getVector convert_int ?cfg ''h : bins-x'' [] = Inr [Some 50, Some 0, Some 1]"
    by (auto simp: c1)
  moreover from t2 e2 have "getVector convert_int ?cfg ''g'' [Some 7] = Inr [Some 7]"
    by blast
  moreover from t1 [THEN conjunct2, THEN conjunct2, THEN conjunct1, rule_format,
      of "[''a'', [], ''b'']"]
  have "split_commas (comma_join [''a'', [], ''b'']) [] = [''a'', [], ''b'']"
    by simp
  moreover from t1 [THEN conjunct2, THEN conjunct2, THEN conjunct2, THEN conjunct1,
      rule_format, of "''a,,b,''"]
  have "comma_join (split_commas ''a,,b,'' []) = ''a,,b''"
    by simp
  ultimately show ?thesis using e1 e2 by simp
qed

subsection \<open>Writing and reading back\<close>

lemma of_char_digit: "d < 10 \<Longrightarrow> (of_char (digit_char d) :: nat) = 48 + d"
proof -
  assume "d < 10"
  then have "d \<in> {0, 1, 2, 3, 4, 5, 6, 7, 8, 9}" by auto
  then show ?thesis by (auto simp: digit_char_def)
qed

lemma is_digit_digit_char: "d < 10 \<Longrightarrow> is_digit (digit_char d)"
  by (simp add: is_digit_def of_char_digit)

lemma from_dec_snoc: "from_dec (s @ [c]) = 10 * from_dec s + digit_val c"
  by (simp add: from_dec_def)

lemma from_dec_dec: "from_dec (dec n) = n"
proof (induction n rule: dec.induct)
  case (1 n)
  show ?case
  proof (cases "n < 10")
    case True
    then show ?thesis
      by (subst dec.simps) (simp add: from_dec_def digit_val_def of_char_digit)
  next
    case False
    with 1 have "from_dec (dec (n div 10)) = n div 10" by simp
    with False show ?thesis
      by (subst dec.simps) (simp add: from_dec_snoc digit_val_def of_char_digit)
  qed
qed

lemma dec_digits: "c \<in> set (dec n) \<Longrightarrow> is_digit c"
proof (induction n rule: dec.induct)
  case (1 n)
  show ?case
  proof (cases "n < 10")
    case True
    with 1(2) show ?thesis
      by (subst (asm) dec.simps) (simp add: is_digit_digit_char)
  next
    case False
    with 1 show ?thesis
      by (subst (asm) (2) dec.simps) (auto simp: is_digit_digit_char)
  qed
qed

lemma dec_nonempty: "dec n \<noteq> []"
  by (subst dec.simps) simp

lemma is_digit_not_space: "is_digit c \<Longrightarrow> \<not> isspace c"
  by (auto simp: is_digit_def isspace_def)

lemma is_digit_not_sign: "is_digit c \<Longrightarrow> c \<noteq> CHR ''-'' \<and> c \<noteq> CHR ''+''"
  by (auto simp: is_digit_def)

lemma takeWhile_digits: "(\<And>c. c \<in> set s \<Longrightarrow> is_digit c) \<Longrightarrow> takeWhile is_digit s = s"
  by (induction s) auto

lemma extract_int_digits:
  assumes "ds \<noteq> []" and "\<And>c. c \<in> set ds \<Longrightarrow> is_digit c"
  shows "extract_int ds =
     Some (if int (from_dec ds) < INT_MIN then INT_MIN
           else if int (from_dec ds) > INT_MAX then INT_MAX else int (from_dec ds))"
    and "extract_int (CHR ''-'' # ds) =
     Some (if - int (from_dec ds) < INT_MIN then INT_MIN
           else if - int (from_dec ds) > INT_MAX then INT_MAX else - int (from_dec ds))"
proof -
  from assms have c: "is_digit (hd ds)" by (cases ds) auto
  have t: "takeWhile is_digit ds = ds"
    by (rule takeWhile_digits) (rule assms(2))
  have d: "dropWhile isspace ds = ds"
    using assms(1) c by (cases ds) (auto simp: is_digit_not_space)
  have m: "dropWhile isspace (CHR ''-'' # ds) = CHR ''-'' # ds"
    by (simp add: isspace_def)
  show "extract_int ds =
     Some (if int (from_dec ds) < INT_MIN then INT_MIN
           else if int (from_dec ds) > INT_MAX then INT_MAX else int (from_dec ds))"
    unfolding extract_int_def Let_def d
    using assms(1) is_digit_not_sign [OF c] by (simp add: t)
  show "extract_int (CHR ''-'' # ds) =
     Some (if - int (from_dec ds) < INT_MIN then INT_MIN
           else if - int (from_dec ds) > INT_MAX then INT_MAX else - int (from_dec ds))"
    unfolding extract_int_def Let_def m
    using assms(1) by (simp add: t)
qed

lemma extract_int_dec:
  "extract_int (dec n) =
     Some (if int n < INT_MIN then INT_MIN else if int n > INT_MAX then INT_MAX else int n)"
  using extract_int_digits(1) [OF dec_nonempty dec_digits, of n]
  by (simp add: from_dec_dec)

lemma extract_int_minus_dec:
  "extract_int (''-'' @ dec n) =
     Some (if - int n < INT_MIN then INT_MIN else if - int n > INT_MAX then INT_MAX else - int n)"
  using extract_int_digits(2) [OF dec_nonempty dec_digits, of n]
  by (simp add: from_dec_dec)

lemma extract_int_convertTo_int: "extract_int (convertTo_int v) = Some (sint v)"
proof -
  have lo: "\<not> sint v < INT_MIN" and hi: "\<not> sint v > INT_MAX"
    using sint_ge [of v] sint_lt [of v] by (simp_all add: INT_MIN_def INT_MAX_def)
  show ?thesis
  proof (cases "sint v < 0")
    case True
    then have c: "convertTo_int v = ''-'' @ dec (nat (- sint v))"
      by (simp add: convertTo_int_def)
    from True have "- int (nat (- sint v)) = sint v" by simp
    with lo hi show ?thesis
      unfolding c extract_int_minus_dec by simp
  next
    case False
    then have c: "convertTo_int v = dec (nat (sint v))"
      by (simp add: convertTo_int_def)
    from False have "int (nat (sint v)) = sint v" by simp
    with lo hi show ?thesis
      unfolding c extract_int_dec by simp
  qed
qed

lemma convert_int_convertTo_int: "convert_int (convertTo_int v) = Some v"
  by (simp add: convert_int_def extract_int_convertTo_int)

lemma exists_set:
  "exists (set_string cfg p v) p" "exists (set_bool cfg p b) p"
  "exists (set_generic convertTo cfg p x) p"
  by (simp_all add: exists_iff set_string_def set_bool_def set_generic_def map_of_assign Let_def)

lemmas nearest_eval = nearest_double_def floor_log_def ndigits.simps shift_def round_half_even_def

lemmas decimal_eval = decimal6_def floor_log_def ndigits.simps shift_def round_half_even_def

lemmas format_eval = format_g_def dec.simps digit_char_def point_fraction_def strip_zeros_def

lemmas extract_eval = extract_double_def isspace_def is_digit_def from_dec_def digit_val_def
  shift_def

lemma convertTo_double_Finite:
  "m \<noteq> 0 \<Longrightarrow> shift 2 (m, 1) (- e) = (n, d) \<Longrightarrow> decimal6 n d = (q, x) \<Longrightarrow>
   convertTo_double (Finite neg m e) = (if neg then ''-'' else []) @ format_g q x"
  by (simp add: convertTo_double_def)

text \<open>
  The conversions of a \<^verbatim>\<open>double\<close> that is a whole number below one million: it is
  represented exactly, printed in positional notation without a fraction, and read
  back as itself.
\<close>

lemma ndigits_0: "ndigits b 0 = 0"
  by (subst ndigits.simps) simp

lemma ndigits_pos: "2 \<le> b \<Longrightarrow> 0 < n \<Longrightarrow> ndigits b n = Suc (ndigits b (n div b))"
  by (subst ndigits.simps) simp

lemma ndigits_bounds:
  "2 \<le> b \<Longrightarrow> 0 < n \<Longrightarrow> b ^ (ndigits b n - 1) \<le> n \<and> n < b ^ ndigits b n"
proof (induction b n rule: ndigits.induct)
  case (1 b n)
  show ?case
  proof (cases "n div b = 0")
    case True
    with 1(2,3) have "n < b"
      by (simp add: div_eq_0_iff)
    with 1(2,3) True show ?thesis
      by (simp add: ndigits_pos ndigits_0)
  next
    case False
    with 1 have ih: "b ^ (ndigits b (n div b) - 1) \<le> n div b" "n div b < b ^ ndigits b (n div b)"
      by auto
    from False 1(2) have p: "0 < ndigits b (n div b)"
      by (simp add: ndigits_pos)
    have "b * b ^ (ndigits b (n div b) - 1) \<le> b * (n div b)"
      using ih(1) by simp
    also have "\<dots> \<le> n" by simp
    finally have lo: "b ^ ndigits b (n div b) \<le> n"
      using p by (cases "ndigits b (n div b)") simp_all
    from ih(2) have "n div b + 1 \<le> b ^ ndigits b (n div b)" by simp
    then have "b * (n div b + 1) \<le> b * b ^ ndigits b (n div b)"
      by (simp only: mult_le_mono2)
    moreover have "n < b * (n div b + 1)"
    proof -
      from 1(2) have m: "n mod b < b" by simp
      have "n = b * (n div b) + n mod b" by simp
      also have "\<dots> < b * (n div b) + b"
        using m by (simp only: add_less_cancel_left)
      finally show ?thesis by simp
    qed
    ultimately have hi: "n < b * b ^ ndigits b (n div b)" by simp
    from lo hi 1(2,3) show ?thesis
      by (simp add: ndigits_pos)
  qed
qed


lemma ndigits_le: "2 \<le> b \<Longrightarrow> n < b ^ j \<Longrightarrow> ndigits b n \<le> j"
proof (cases "n = 0")
  case True
  then show ?thesis by (simp add: ndigits_0)
next
  case False
  assume b: "2 \<le> b" and n: "n < b ^ j"
  from False b have "b ^ (ndigits b n - 1) \<le> n"
    using ndigits_bounds [of b n] by simp
  with n have "b ^ (ndigits b n - 1) < b ^ j" by simp
  with b have "ndigits b n - 1 < j"
    by (simp add: power_less_imp_less_exp)
  then show ?thesis by simp
qed

lemma ndigits_gt: "2 \<le> b \<Longrightarrow> b ^ j \<le> n \<Longrightarrow> j < ndigits b n"
proof -
  assume b: "2 \<le> b" and n: "b ^ j \<le> n"
  then have "0 < n"
    by (metis less_le_trans zero_less_power zero_less_numeral order_less_le_trans)
  with b have "n < b ^ ndigits b n"
    using ndigits_bounds [of b n] by simp
  with n have "b ^ j < b ^ ndigits b n" by simp
  with b show ?thesis
    by (simp add: power_less_imp_less_exp)
qed

lemma floor_log_multiple:
  assumes b: "2 \<le> b" and n: "0 < n" and c: "0 < c"
  shows "floor_log b (n * c) c = int (ndigits b n) - 1"
proof -
  let ?L = "ndigits b n" and ?A = "ndigits b (n * c)" and ?C = "ndigits b c"
  from ndigits_bounds [OF b n] have nb: "b ^ (?L - 1) \<le> n" "n < b ^ ?L" by simp_all
  from ndigits_bounds [OF b c] have cb: "b ^ (?C - 1) \<le> c" "c < b ^ ?C" by simp_all
  from n b have L: "0 < ?L" by (simp add: ndigits_pos)
  from c b have C: "0 < ?C" by (simp add: ndigits_pos)
  have "b ^ (?L - 1) * b ^ (?C - 1) \<le> n * c"
    using nb(1) cb(1) by (rule mult_le_mono)
  then have "b ^ (?L - 1 + (?C - 1)) \<le> n * c"
    by (simp add: power_add)
  from ndigits_gt [OF b this] have lo: "?L + ?C - 2 < ?A" using L C by simp
  have "n * c < b ^ ?L * c"
    using nb(2) c by simp
  also have "\<dots> \<le> b ^ ?L * b ^ ?C"
    using cb(2) by simp
  finally have "n * c < b ^ (?L + ?C)"
    by (simp add: power_add)
  from ndigits_le [OF b this] have hi: "?A \<le> ?L + ?C" .
  from lo hi consider "?A = ?L + ?C - 1" | "?A = ?L + ?C" by linarith
  then show ?thesis
  proof cases
    case 1
    then have k: "int ?A - int ?C = int (?L - 1)" using L C by simp
    have "c * b ^ (?L - 1) \<le> n * c" using nb(1) by simp
    moreover have "nat (int ?L - 1) = ?L - 1" by simp
    ultimately show ?thesis
      unfolding floor_log_def k using L c by (simp add: shift_def Let_def)
  next
    case 2
    then have k: "int ?A - int ?C = int ?L" by simp
    have "\<not> c * b ^ ?L \<le> n * c" using nb(2) c by simp
    then show ?thesis
      unfolding floor_log_def k using c by (simp add: shift_def Let_def)
  qed
qed

lemma round_half_even_multiple: "0 < c \<Longrightarrow> round_half_even (n * c) c = n"
  by (simp add: round_half_even_def)

lemma nearest_double_int:
  assumes n: "0 < n" and r: "n < 2 ^ 53"
  shows "nearest_double neg n 1 = Finite neg (n * 2 ^ (53 - ndigits 2 n)) (int (ndigits 2 n) - 53)"
proof -
  let ?L = "ndigits 2 n"
  from n have L: "0 < ?L" by (simp add: ndigits_pos)
  from r have L53: "?L \<le> 53" by (rule ndigits_le [rotated]) simp
  from ndigits_bounds [of 2 n] n have nb: "n < 2 ^ ?L" by simp
  from floor_log_multiple [of 2 n 1] n have f: "floor_log 2 n 1 = int ?L - 1" by simp
  have e: "max (int ?L - 1 - 52) (- 1074) = int ?L - 53" using L by simp
  have s: "shift 2 (n, 1) (int ?L - 53) = (n * 2 ^ (53 - ?L), 1)"
    using L53 by (cases "?L = 53") (simp_all add: shift_def nat_diff_distrib')
  have m: "round_half_even (n * 2 ^ (53 - ?L)) 1 = n * 2 ^ (53 - ?L)"
    using round_half_even_multiple [of 1] by simp
  have "n * 2 ^ (53 - ?L) < 2 ^ ?L * 2 ^ (53 - ?L)"
    using nb by simp
  also have "\<dots> = 2 ^ 53"
    using L53 by (simp add: power_add [symmetric])
  finally have lt: "n * 2 ^ (53 - ?L) < 2 ^ 53" .
  then have ne: "n * 2 ^ (53 - ?L) \<noteq> 2 ^ 53" by simp
  show ?thesis
    unfolding nearest_double_def Let_def f e s prod.case m
    using n ne L53 by simp
qed


lemma decimal6_multiple:
  assumes n: "0 < n" and r: "n < 10 ^ 6" and c: "0 < c"
  shows "decimal6 (n * c) c = (n * 10 ^ (6 - ndigits 10 n), int (ndigits 10 n) - 1)"
proof -
  let ?L = "ndigits 10 n"
  from n have L: "0 < ?L" by (simp add: ndigits_pos)
  from r have L6: "?L \<le> 6" by (rule ndigits_le [rotated]) simp
  from ndigits_bounds [of 10 n] n have nb: "n < 10 ^ ?L" by simp
  from floor_log_multiple [of 10 n c] n c have f: "floor_log 10 (n * c) c = int ?L - 1" by simp
  have s: "shift 10 (n * c, c) (int ?L - 1 - 5) = (n * 10 ^ (6 - ?L) * c, c)"
    using L6 by (cases "?L = 6") (simp_all add: shift_def nat_diff_distrib' algebra_simps)
  have m: "round_half_even (n * 10 ^ (6 - ?L) * c) c = n * 10 ^ (6 - ?L)"
    using c by (rule round_half_even_multiple)
  have "n * 10 ^ (6 - ?L) < 10 ^ ?L * 10 ^ (6 - ?L)"
    using nb by simp
  also have "\<dots> = 10 ^ 6"
    using L6 by (simp add: power_add [symmetric])
  finally have "n * 10 ^ (6 - ?L) \<noteq> 1000000" by simp
  then show ?thesis
    unfolding decimal6_def Let_def f s prod.case m by simp
qed

lemma dec_times_10: "0 < n \<Longrightarrow> dec (n * 10) = dec n @ ''0''"
  by (subst dec.simps) (simp add: digit_char_def)

lemma dec_shift: "0 < n \<Longrightarrow> dec (n * 10 ^ j) = dec n @ replicate j (CHR ''0'')"
proof (induction j)
  case 0
  then show ?case by simp
next
  case (Suc j)
  then have "dec (n * 10 ^ j * 10) = dec (n * 10 ^ j) @ ''0''"
    by (intro dec_times_10) simp
  with Suc show ?case
    by (simp add: mult.assoc replicate_append_same mult.commute [of 10])
qed

lemma length_dec: "0 < n \<Longrightarrow> length (dec n) = ndigits 10 n"
proof (induction n rule: dec.induct)
  case (1 n)
  show ?case
  proof (cases "n < 10")
    case True
    with 1(2) show ?thesis
      by (subst dec.simps) (simp add: ndigits_pos ndigits_0)
  next
    case False
    then have "0 < n div 10" by simp
    with 1 False show ?thesis
      by (subst dec.simps) (simp add: ndigits_pos)
  qed
qed

lemma strip_zeros_replicate: "strip_zeros (replicate j (CHR ''0'')) = []"
  by (simp add: strip_zeros_def)

lemma format_g_int:
  assumes n: "0 < n" and r: "n < 10 ^ 6"
  shows "format_g (n * 10 ^ (6 - ndigits 10 n)) (int (ndigits 10 n) - 1) = dec n"
proof -
  let ?L = "ndigits 10 n"
  from n have L: "0 < ?L" by (simp add: ndigits_pos)
  from r have L6: "?L \<le> 6" by (rule ndigits_le [rotated]) simp
  have x: "nat (int ?L - 1) + 1 = length (dec n)"
    using L n by (simp add: length_dec)
  have "\<not> (int ?L - 1 < - 4 \<or> 6 \<le> int ?L - 1)" "0 \<le> int ?L - 1"
    using L L6 by simp_all
  then show ?thesis
    unfolding format_g_def Let_def dec_shift [OF n] x
    by (simp add: point_fraction_def strip_zeros_replicate)
qed

lemma convertTo_double_int:
  assumes r: "n < 10 ^ 6"
  shows "convertTo_double (nearest_double neg n 1) = (if neg then ''-'' else []) @ dec n"
proof (cases "n = 0")
  case True
  have "dec 0 = ''0''"
    by (subst dec.simps) (simp add: digit_char_def)
  with True show ?thesis
    by (simp add: nearest_double_def convertTo_double_def)
next
  case False
  then have n: "0 < n" by simp
  let ?K = "ndigits 2 n"
  let ?m = "n * 2 ^ (53 - ?K)"
  from r have r53: "n < 2 ^ 53" by simp
  from r53 have K53: "?K \<le> 53" by (rule ndigits_le [rotated]) simp
  have v: "nearest_double neg n 1 = Finite neg ?m (int ?K - 53)"
    using n r53 by (rule nearest_double_int)
  have s: "shift 2 (?m, 1) (- (int ?K - 53)) = (n * 2 ^ (53 - ?K), 2 ^ (53 - ?K))"
    using K53 by (simp add: shift_def nat_diff_distrib')
  have d: "decimal6 (n * 2 ^ (53 - ?K)) (2 ^ (53 - ?K)) =
      (n * 10 ^ (6 - ndigits 10 n), int (ndigits 10 n) - 1)"
    using n r by (intro decimal6_multiple) simp_all
  from n have "?m \<noteq> 0" by simp
  from convertTo_double_Finite [OF this s d, of neg] show ?thesis
    unfolding v by (simp add: format_g_int [OF n r])
qed

lemma extract_double_int:
  "extract_double ((if neg then ''-'' else []) @ dec n) =
     Some (case nearest_double neg n 1 of Infinity b \<Rightarrow> max_double b | r \<Rightarrow> r)"
proof -
  have ne: "dec n \<noteq> []" by (rule dec_nonempty)
  then have h: "is_digit (hd (dec n))"
    using dec_digits [of "hd (dec n)" n] by simp
  have t: "takeWhile is_digit (dec n) = dec n"
    by (rule takeWhile_digits) (rule dec_digits)
  have dr: "dropWhile is_digit (dec n) = []"
    by (simp add: dec_digits)
  have sp: "dropWhile isspace (dec n) = dec n"
    using ne h by (cases "dec n") (simp_all add: is_digit_not_space)
  show ?thesis
  proof (cases neg)
    case True
    have "dropWhile isspace (''-'' @ dec n) = ''-'' @ dec n"
      by (simp add: isspace_def)
    then show ?thesis
      using True ne unfolding extract_double_def
      by (simp add: t dr Let_def from_dec_dec shift_def)
  next
    case False
    from h have "hd (dec n) \<noteq> CHR ''-''" "hd (dec n) \<noteq> CHR ''+''"
      using is_digit_not_sign by blast+
    then show ?thesis
      using False ne sp unfolding extract_double_def
      by (simp add: t dr Let_def from_dec_dec shift_def)
  qed
qed

lemma double_int_roundtrip:
  assumes "n < 10 ^ 6"
  shows "convert_double (convertTo_double (nearest_double neg n 1)) = Some (nearest_double neg n 1)"
proof -
  have "\<exists>m e. nearest_double neg n 1 = Finite neg m e"
  proof (cases "n = 0")
    case True
    then show ?thesis by (simp add: nearest_double_def)
  next
    case False
    with assms have "0 < n" "n < 2 ^ 53" by simp_all
    from nearest_double_int [OF this] show ?thesis by blast
  qed
  then obtain m e where "nearest_double neg n 1 = Finite neg m e" by blast
  then show ?thesis
    unfolding convert_double_def convertTo_double_int [OF assms] extract_double_int
    by simp
qed

text \<open>
  The conversions of a \<^verbatim>\<open>double\<close> at particular values: the value that a decimal
  literal denotes, the text that is written for it, and the value that is read from
  that text.
\<close>

lemma double_1_5_value: "nearest_double False 3 2 = Finite False 6755399441055744 (- 52)"
  by (simp add: nearest_eval Let_def)

lemma double_1_5_text: "convertTo_double (nearest_double False 3 2) = ''1.5''"
proof -
  have s: "shift 2 (6755399441055744, 1) (- (- 52)) = (6755399441055744, 4503599627370496)"
    by (simp add: shift_def)
  have d: "decimal6 6755399441055744 4503599627370496 = (150000, 0)"
    by (simp add: decimal_eval Let_def)
  have f: "format_g 150000 (0) = ''1.5''"
    by (simp add: format_eval)
  from convertTo_double_Finite [OF _ s d, of False] show ?thesis
    unfolding double_1_5_value by (simp add: f)
qed

lemma double_1_5_read: "convert_double ''1.5'' = Some (nearest_double False 3 2)"
proof -
  have x: "extract_double ''1.5'' =
      Some (case nearest_double False 15 10 of Infinity b \<Rightarrow> max_double b | r \<Rightarrow> r)"
    by (simp add: extract_eval)
  have n: "nearest_double False 15 10 = Finite False 6755399441055744 (- 52)"
    by (simp add: nearest_eval Let_def)
  show ?thesis
    unfolding convert_double_def x n double_1_5_value by simp
qed

lemma double_3_14_value: "nearest_double False 314 100 = Finite False 7070651414971679 (- 51)"
  by (simp add: nearest_eval Let_def)

lemma double_3_14_text: "convertTo_double (nearest_double False 314 100) = ''3.14''"
proof -
  have s: "shift 2 (7070651414971679, 1) (- (- 51)) = (7070651414971679, 2251799813685248)"
    by (simp add: shift_def)
  have d: "decimal6 7070651414971679 2251799813685248 = (314000, 0)"
    by (simp add: decimal_eval Let_def)
  have f: "format_g 314000 (0) = ''3.14''"
    by (simp add: format_eval)
  from convertTo_double_Finite [OF _ s d, of False] show ?thesis
    unfolding double_3_14_value by (simp add: f)
qed

lemma double_3_14_read: "convert_double ''3.14'' = Some (nearest_double False 314 100)"
proof -
  have x: "extract_double ''3.14'' =
      Some (case nearest_double False 314 100 of Infinity b \<Rightarrow> max_double b | r \<Rightarrow> r)"
    by (simp add: extract_eval)
  have n: "nearest_double False 314 100 = Finite False 7070651414971679 (- 51)"
    by (simp add: nearest_eval Let_def)
  show ?thesis
    unfolding convert_double_def x n double_3_14_value by simp
qed

lemma double_minus_0_25_value: "nearest_double True 1 4 = Finite True 4503599627370496 (- 54)"
  by (simp add: nearest_eval Let_def)

lemma double_minus_0_25_text: "convertTo_double (nearest_double True 1 4) = ''-0.25''"
proof -
  have s: "shift 2 (4503599627370496, 1) (- (- 54)) = (4503599627370496, 18014398509481984)"
    by (simp add: shift_def)
  have d: "decimal6 4503599627370496 18014398509481984 = (250000, - 1)"
    by (simp add: decimal_eval Let_def)
  have f: "format_g 250000 (- 1) = ''0.25''"
    by (simp add: format_eval)
  from convertTo_double_Finite [OF _ s d, of True] show ?thesis
    unfolding double_minus_0_25_value by (simp add: f)
qed

lemma double_minus_0_25_read: "convert_double ''-0.25'' = Some (nearest_double True 1 4)"
proof -
  have x: "extract_double ''-0.25'' =
      Some (case nearest_double True 25 100 of Infinity b \<Rightarrow> max_double b | r \<Rightarrow> r)"
    by (simp add: extract_eval)
  have n: "nearest_double True 25 100 = Finite True 4503599627370496 (- 54)"
    by (simp add: nearest_eval Let_def)
  show ?thesis
    unfolding convert_double_def x n double_minus_0_25_value by simp
qed

lemma double_1em5_value: "nearest_double False 1 100000 = Finite False 5902958103587057 (- 69)"
  by (simp add: nearest_eval Let_def)

lemma double_1em5_text: "convertTo_double (nearest_double False 1 100000) = ''1e-05''"
proof -
  have s: "shift 2 (5902958103587057, 1) (- (- 69)) = (5902958103587057, 590295810358705651712)"
    by (simp add: shift_def)
  have d: "decimal6 5902958103587057 590295810358705651712 = (100000, - 5)"
    by (simp add: decimal_eval Let_def)
  have f: "format_g 100000 (- 5) = ''1e-05''"
    by (simp add: format_eval)
  from convertTo_double_Finite [OF _ s d, of False] show ?thesis
    unfolding double_1em5_value by (simp add: f)
qed

lemma double_1em5_read: "convert_double ''1e-05'' = Some (nearest_double False 1 100000)"
proof -
  have x: "extract_double ''1e-05'' =
      Some (case nearest_double False 1 100000 of Infinity b \<Rightarrow> max_double b | r \<Rightarrow> r)"
    by (simp add: extract_eval)
  have n: "nearest_double False 1 100000 = Finite False 5902958103587057 (- 69)"
    by (simp add: nearest_eval Let_def)
  show ?thesis
    unfolding convert_double_def x n double_1em5_value by simp
qed

lemma double_2_5e10_value: "nearest_double False 25000000000 1 = Finite False 6553600000000000 (- 18)"
  by (simp add: nearest_eval Let_def)

lemma double_2_5e10_text: "convertTo_double (nearest_double False 25000000000 1) = ''2.5e+10''"
proof -
  have s: "shift 2 (6553600000000000, 1) (- (- 18)) = (6553600000000000, 262144)"
    by (simp add: shift_def)
  have d: "decimal6 6553600000000000 262144 = (250000, 10)"
    by (simp add: decimal_eval Let_def)
  have f: "format_g 250000 (10) = ''2.5e+10''"
    by (simp add: format_eval)
  from convertTo_double_Finite [OF _ s d, of False] show ?thesis
    unfolding double_2_5e10_value by (simp add: f)
qed

lemma double_2_5e10_read: "convert_double ''2.5e+10'' = Some (nearest_double False 25000000000 1)"
proof -
  have x: "extract_double ''2.5e+10'' =
      Some (case nearest_double False 25000000000 1 of Infinity b \<Rightarrow> max_double b | r \<Rightarrow> r)"
    by (simp add: extract_eval)
  have n: "nearest_double False 25000000000 1 = Finite False 6553600000000000 (- 18)"
    by (simp add: nearest_eval Let_def)
  show ?thesis
    unfolding convert_double_def x n double_2_5e10_value by simp
qed

lemma double_1234567_value: "nearest_double False 1234567 1 = Finite False 5302424889720832 (- 32)"
  by (simp add: nearest_eval Let_def)

lemma double_1234567_text: "convertTo_double (nearest_double False 1234567 1) = ''1.23457e+06''"
proof -
  have s: "shift 2 (5302424889720832, 1) (- (- 32)) = (5302424889720832, 4294967296)"
    by (simp add: shift_def)
  have d: "decimal6 5302424889720832 4294967296 = (123457, 6)"
    by (simp add: decimal_eval Let_def)
  have f: "format_g 123457 (6) = ''1.23457e+06''"
    by (simp add: format_eval)
  from convertTo_double_Finite [OF _ s d, of False] show ?thesis
    unfolding double_1234567_value by (simp add: f)
qed

lemma double_1234570_value: "nearest_double False 1234570 1 = Finite False 5302437774622720 (- 32)"
  by (simp add: nearest_eval Let_def)

lemma double_1234567_read: "convert_double ''1.23457e+06'' = Some (nearest_double False 1234570 1)"
proof -
  have x: "extract_double ''1.23457e+06'' =
      Some (case nearest_double False 1234570 1 of Infinity b \<Rightarrow> max_double b | r \<Rightarrow> r)"
    by (simp add: extract_eval)
  have n: "nearest_double False 1234570 1 = Finite False 5302437774622720 (- 32)"
    by (simp add: nearest_eval Let_def)
  show ?thesis
    unfolding convert_double_def x n double_1234570_value by simp
qed

lemma double_1234567_differs: "nearest_double False 1234570 1 \<noteq> nearest_double False 1234567 1"
  unfolding double_1234567_value double_1234570_value by simp

lemma double_0_1234567_value: "nearest_double False 1234567 10000000 = Finite False 8895992769862258 (- 56)"
  by (simp add: nearest_eval Let_def)

lemma double_0_1234567_text: "convertTo_double (nearest_double False 1234567 10000000) = ''0.123457''"
proof -
  have s: "shift 2 (8895992769862258, 1) (- (- 56)) = (8895992769862258, 72057594037927936)"
    by (simp add: shift_def)
  have d: "decimal6 8895992769862258 72057594037927936 = (123457, - 1)"
    by (simp add: decimal_eval Let_def)
  have f: "format_g 123457 (- 1) = ''0.123457''"
    by (simp add: format_eval)
  from convertTo_double_Finite [OF _ s d, of False] show ?thesis
    unfolding double_0_1234567_value by (simp add: f)
qed

lemma double_0_123457_value: "nearest_double False 123457 1000000 = Finite False 8896014387140469 (- 56)"
  by (simp add: nearest_eval Let_def)

lemma double_0_1234567_read: "convert_double ''0.123457'' = Some (nearest_double False 123457 1000000)"
proof -
  have x: "extract_double ''0.123457'' =
      Some (case nearest_double False 123457 1000000 of Infinity b \<Rightarrow> max_double b | r \<Rightarrow> r)"
    by (simp add: extract_eval)
  have n: "nearest_double False 123457 1000000 = Finite False 8896014387140469 (- 56)"
    by (simp add: nearest_eval Let_def)
  show ?thesis
    unfolding convert_double_def x n double_0_123457_value by simp
qed

lemma double_0_1234567_differs: "nearest_double False 123457 1000000 \<noteq> nearest_double False 1234567 10000000"
  unfolding double_0_1234567_value double_0_123457_value by simp

lemma get_set_generic:
  "get convert (set_generic convertTo cfg p x) p dx = Inr (convert (convertTo x))"
  by (simp add: get_def exists_set) (simp add: set_generic_def at_def map_of_assign)

text \<open>
  Claim C6, as stated, fails for floating point: the stream prints a \<^verbatim>\<open>double\<close> with
  six significant digits, so 1234567.0 is stored as "1.23457e+06" and read back as
  1234570.0, and 0.1234567 is stored as "0.123457" and read back as 0.123457.
\<close>

theorem double_roundtrip_counterexample:
  "convertTo_double (nearest_double False 1234567 1) = ''1.23457e+06'' \<and>
   get convert_double
     (set_generic convertTo_double \<lparr>mErrorParsing = False, mNodes = []\<rparr> ''p''
        (nearest_double False 1234567 1)) ''p'' None =
     Inr (Some (nearest_double False 1234570 1)) \<and>
   nearest_double False 1234570 1 \<noteq> nearest_double False 1234567 1 \<and>
   convertTo_double (nearest_double False 1234567 10000000) = ''0.123457'' \<and>
   get convert_double
     (set_generic convertTo_double \<lparr>mErrorParsing = False, mNodes = []\<rparr> ''p''
        (nearest_double False 1234567 10000000)) ''p'' None =
     Inr (Some (nearest_double False 123457 1000000)) \<and>
   nearest_double False 123457 1000000 \<noteq> nearest_double False 1234567 10000000"
  unfolding get_set_generic double_1234567_text double_1234567_read
    double_0_1234567_text double_0_1234567_read
  using double_1234567_differs double_0_1234567_differs by simp

text \<open>
  Claim C6, amended. Writing a value and reading it back under the same path returns
  the value: for every text, for both booleans (\<^verbatim>\<open>set<bool>\<close> stores exactly "true"
  or "false") and for every \<^verbatim>\<open>int\<close>. For a \<^verbatim>\<open>double\<close>, \<^verbatim>\<open>get\<close> returns what the
  stream extraction reads from the six-digit text that \<^verbatim>\<open>set\<close> wrote. This is the
  value written for every whole number of magnitude below one million (of either
  sign, the two zeros included), and for the values 1.5, 3.14, -0.25, 0.00001 and
  25000000000, whose texts are "1.5", "3.14", "-0.25", "1e-05" and "2.5e+10".
\<close>

theorem set_get_roundtrip:
  "get_string (set_string cfg p v) p d = Inr v \<and>
   get convert_bool (set_bool cfg p b) p db = Inr (Some b) \<and>
   map_of (mNodes (set_bool cfg p b)) (canonize p) = Some (if b then ''true'' else ''false'') \<and>
   get convert_int (set_generic convertTo_int cfg p i) p di = Inr (Some i) \<and>
   get convert_double (set_generic convertTo_double cfg p x) p dx =
     Inr (convert_double (convertTo_double x)) \<and>
   (n < 1000000 \<longrightarrow>
      get convert_double (set_generic convertTo_double cfg p (nearest_double neg n 1)) p dx =
        Inr (Some (nearest_double neg n 1))) \<and>
   (\<forall>y \<in> {nearest_double False 3 2, nearest_double False 314 100, nearest_double True 1 4,
           nearest_double False 1 100000, nearest_double False 25000000000 1}.
      get convert_double (set_generic convertTo_double cfg p y) p dx = Inr (Some y))"
proof -
  have "get_string (set_string cfg p v) p d = Inr v"
    by (simp add: get_string_def exists_set) (simp add: set_string_def at_def map_of_assign)
  moreover have "map_of (mNodes (set_bool cfg p b)) (canonize p) =
      Some (if b then ''true'' else ''false'')"
    by (simp add: set_bool_def map_of_assign)
  moreover from this have "get convert_bool (set_bool cfg p b) p db = Inr (Some b)"
    by (simp add: get_def exists_set at_def convert_bool_def)
  moreover have "get convert_int (set_generic convertTo_int cfg p i) p di = Inr (Some i)"
    by (simp add: get_set_generic convert_int_convertTo_int)
  moreover have "get convert_double (set_generic convertTo_double cfg p y) p dx = Inr (Some y)"
    if "convert_double (convertTo_double y) = Some y" for y
    using that by (simp add: get_set_generic)
  moreover have "convert_double (convertTo_double (nearest_double False 3 2)) =
      Some (nearest_double False 3 2)"
    unfolding double_1_5_text double_1_5_read ..
  moreover have "convert_double (convertTo_double (nearest_double False 314 100)) =
      Some (nearest_double False 314 100)"
    unfolding double_3_14_text double_3_14_read ..
  moreover have "convert_double (convertTo_double (nearest_double True 1 4)) =
      Some (nearest_double True 1 4)"
    unfolding double_minus_0_25_text double_minus_0_25_read ..
  moreover have "convert_double (convertTo_double (nearest_double False 1 100000)) =
      Some (nearest_double False 1 100000)"
    unfolding double_1em5_text double_1em5_read ..
  moreover have "convert_double (convertTo_double (nearest_double False 25000000000 1)) =
      Some (nearest_double False 25000000000 1)"
    unfolding double_2_5e10_text double_2_5e10_read ..
  moreover have "convert_double (convertTo_double (nearest_double neg n 1)) =
      Some (nearest_double neg n 1)" if "n < 1000000"
    using that by (intro double_int_roundtrip) simp
  ultimately show ?thesis
    unfolding get_set_generic [of convert_double convertTo_double cfg p x dx]
    by blast
qed

theorem set_get_roundtrip_witness:
  "get_string (set_string \<lparr>mErrorParsing = False, mNodes = []\<rparr> ''a[0] .b'' ''1.5'')
      ''a[0] .b'' ''0'' = Inr ''1.5'' \<and>
   get convert_int (set_generic convertTo_int \<lparr>mErrorParsing = False, mNodes = []\<rparr>
      ''a[0] .b'' (- 42)) ''a[0] .b'' (Some 0) = Inr (Some (- 42)) \<and>
   get convert_bool (set_bool \<lparr>mErrorParsing = False, mNodes = []\<rparr> ''a[0] .b'' True)
      ''a[0] .b'' (Some False) = Inr (Some True) \<and>
   (42 :: nat) < 1000000 \<and>
   get convert_double (set_generic convertTo_double \<lparr>mErrorParsing = False, mNodes = []\<rparr>
      ''a[0] .b'' (nearest_double True 42 1)) ''a[0] .b'' None =
     Inr (Some (nearest_double True 42 1)) \<and>
   get convert_double (set_generic convertTo_double \<lparr>mErrorParsing = False, mNodes = []\<rparr>
      ''a[0] .b'' (nearest_double False 314 100)) ''a[0] .b'' None =
     Inr (Some (nearest_double False 314 100)) \<and>
   get convert_double (set_generic convertTo_double \<lparr>mErrorParsing = False, mNodes = []\<rparr>
      ''a[0] .b'' (nearest_double False 1234567 1)) ''a[0] .b'' None =
     Inr (convert_double (convertTo_double (nearest_double False 1234567 1)))"
  using set_get_roundtrip [where cfg = "\<lparr>mErrorParsing = False, mNodes = []\<rparr>"
      and p = "''a[0] .b''" and i = "- 42" and b = True and di = "Some 0"
      and db = "Some False" and dx = None and d = "''0''" and v = "''1.5''"
      and x = "nearest_double False 1234567 1" and n = 42 and neg = True]
  by simp

subsection \<open>Keys of the flattened tree\<close>

lemma count_keys:
  "count m k = 0 \<longleftrightarrow> k \<notin> fst ` set m"
  "0 < count m k \<longleftrightarrow> k \<in> fst ` set m"
  using count_eq_0_iff [of m k] map_of_eq_None_iff [of m k] by auto


lemma pathCount_from_spec:
  "start \<le> pathCount_from m path start \<and>
   path @ fmt_index (pathCount_from m path start) \<notin> fst ` set m \<and>
   (\<forall>j. start \<le> j \<and> j < pathCount_from m path start \<longrightarrow> path @ fmt_index j \<in> fst ` set m)"
proof (induction m path start rule: pathCount_from.induct)
  case (1 m path index)
  show ?case
  proof (cases "count m (path @ fmt_index index) \<noteq> 0")
    case True
    then have u: "pathCount_from m path index = pathCount_from m path (index + 1)"
      by (subst pathCount_from.simps) simp
    from True have here: "path @ fmt_index index \<in> fst ` set m"
      by (simp add: count_keys)
    have "j = index \<or> index + 1 \<le> j" if "index \<le> j" for j using that by auto
    with 1 [OF True] here show ?thesis unfolding u by (metis add_leD1)
  next
    case False
    then have u: "pathCount_from m path index = index"
      by (subst pathCount_from.simps) simp
    from False show ?thesis unfolding u by (auto simp: count_keys)
  qed
qed

lemma pathCount_spec:
  "1 \<le> pathCount m path \<and>
   path @ fmt_index (pathCount m path) \<notin> fst ` set m \<and>
   (\<forall>j. 1 \<le> j \<and> j < pathCount m path \<longrightarrow> path @ fmt_index j \<in> fst ` set m)"
  unfolding pathCount_def by (rule pathCount_from_spec)

lemma pathCount_unique:
  assumes "1 \<le> i" and "path @ fmt_index i \<notin> fst ` set m"
    and "\<And>j. 1 \<le> j \<Longrightarrow> j < i \<Longrightarrow> path @ fmt_index j \<in> fst ` set m"
  shows "pathCount m path = i"
proof -
  note s = pathCount_spec [of m path]
  have "\<not> pathCount m path < i" using s assms(3) by blast
  moreover have "\<not> i < pathCount m path" using s assms(1,2) by blast
  ultimately show ?thesis by simp
qed

lemma recordNode_fresh:
  assumes "recordNode m path c = (path', m')"
  shows "path' \<notin> fst ` set m" and "m' = assign m path' c"
    and "path' = path \<or> (\<exists>i\<ge>1. path' = path @ fmt_index i)"
  using assms pathCount_spec [of m path]
  by (auto simp: recordNode_def Let_def count_keys split: if_splits)

lemma keys_mapAttrs:
  "fst ` set (mapAttrs m path as) = fst ` set m \<union> (\<lambda>a. path @ attrDelim @ fst a) ` set as"
  by (induction m path as rule: mapAttrs.induct) (auto simp: keys_assign Let_def)


lemma keys_mono:
  "fst ` set m \<subseteq> fst ` set (mapFile m node level path)"
  "fst ` set m \<subseteq> fst ` set (mapChildren m cs level path)"
proof (induction m node level path and m cs level path rule: mapFile_mapChildren.induct)
  case (1 m name content as cs level path)
  let ?path2 = "(if level > 1 then (if path \<noteq> [] then path @ pathDelim else path) @ name
                 else (if path \<noteq> [] then path @ pathDelim else path))"
  let ?c = "(case content of Some c \<Rightarrow> c | None \<Rightarrow> valDNE)"
  obtain path3 m1 where r: "recordNode m ?path2 ?c = (path3, m1)"
    by (cases "recordNode m ?path2 ?c")
  from recordNode_fresh(2) [OF r] have "fst ` set m \<subseteq> fst ` set m1"
    by (auto simp: keys_assign)
  then have "fst ` set m \<subseteq> fst ` set (mapAttrs m1 path3 as)"
    by (auto simp: keys_mapAttrs)
  with 1 [OF refl refl refl refl r [symmetric] refl] r show ?case
    by (auto simp: Let_def)
next
  case (2 m level path)
  then show ?case by simp
next
  case (3 m child rest level path)
  then show ?case by auto
qed



subsection \<open>The root of a loaded document\<close>

lemma mapFile_root:
  "mapFile [] (XmlNode name content as cs) (Suc 0) [] =
     mapChildren
       (mapAttrs [([], case content of Some c \<Rightarrow> c | None \<Rightarrow> valDNE)] [] as) cs
       (Suc (Suc 0)) []"
  by (simp add: recordNode_def count_def)











subsection \<open>Sibling disambiguation\<close>

lemma digit_char_plain: "d < 10 \<Longrightarrow> digit_char d \<noteq> CHR ''.'' \<and> digit_char d \<noteq> CHR '':'' \<and> digit_char d \<noteq> CHR '']''"
  using is_digit_digit_char [of d] by (auto simp: is_digit_def)

lemma dec_plain: "c \<in> set (dec n) \<Longrightarrow> c \<noteq> CHR ''.'' \<and> c \<noteq> CHR '':'' \<and> c \<noteq> CHR '']''"
  using dec_digits [of c n] by (auto simp: is_digit_def)

lemma fmt_index_plain: "c \<in> set (fmt_index i) \<Longrightarrow> c \<noteq> CHR ''.'' \<and> c \<noteq> CHR '':''"
  using dec_plain [of c i] by (auto simp: fmt_index_def)

lemma fmt_index_Cons: "fmt_index i = CHR ''['' # dec i @ '']''"
  by (simp add: fmt_index_def)

lemma fmt_index_inj: "fmt_index i = fmt_index j \<Longrightarrow> i = j"
  by (metis fmt_index_Cons list.inject append_same_eq from_dec_dec)

lemma takeWhile_bracket: "CHR ''['' \<notin> set n \<Longrightarrow> takeWhile (\<lambda>c. c \<noteq> CHR ''['') (n @ CHR ''['' # r) = n"
  by (induction n) auto

lemma name_index_eq:
  assumes "CHR ''['' \<notin> set n" and "CHR ''['' \<notin> set n'"
    and "n @ fmt_index i = n' @ fmt_index i'"
  shows "n = n' \<and> i = i'"
proof -
  from assms(3) have "takeWhile (\<lambda>c. c \<noteq> CHR ''['') (n @ fmt_index i) =
      takeWhile (\<lambda>c. c \<noteq> CHR ''['') (n' @ fmt_index i')"
    by simp
  with assms(1,2) have "n = n'"
    by (simp add: fmt_index_Cons takeWhile_bracket)
  with assms(3) show ?thesis by (auto dest: fmt_index_inj)
qed

lemma name_ne_index: "CHR ''['' \<notin> set n \<Longrightarrow> n \<noteq> n' @ fmt_index i"
  by (auto simp: fmt_index_Cons)

lemma first_segment_append:
  assumes "\<And>c. c \<in> set s \<Longrightarrow> c \<noteq> CHR ''.'' \<and> c \<noteq> CHR '':''"
    and "t = [] \<or> hd t = CHR ''.'' \<or> hd t = CHR '':''"
  shows "first_segment (s @ t) = s"
proof -
  have "takeWhile (\<lambda>c. c \<noteq> CHR ''.'' \<and> c \<noteq> CHR '':'') (s @ t) =
      s @ takeWhile (\<lambda>c. c \<noteq> CHR ''.'' \<and> c \<noteq> CHR '':'') t"
    using assms(1) by (induction s) auto
  moreover have "takeWhile (\<lambda>c. c \<noteq> CHR ''.'' \<and> c \<noteq> CHR '':'') t = []"
    using assms(2) by (cases t) auto
  ultimately show ?thesis by (simp add: first_segment_def)
qed

text \<open>The segment of the k-th occurrence of a name.\<close>

lemma occurrence_path_segment:
  "occurrence_path parent n k =
     child_prefix parent @ (if k = 0 then n else n @ fmt_index k)"
  by (simp add: occurrence_path_def child_prefix_def Let_def)

lemma segment_plain:
  assumes "name_ok n" and "c \<in> set (if k = 0 then n else n @ fmt_index k)"
  shows "c \<noteq> CHR ''.'' \<and> c \<noteq> CHR '':''"
  using assms fmt_index_plain [of c k] by (auto simp: name_ok_def split: if_splits)

lemma taken_snoc:
  assumes "\<forall>n' \<in> set seen. name_ok n'" and "name_ok n"
  shows "taken (seen @ [n]) =
     insert (if count_list seen n = 0 then n else n @ fmt_index (count_list seen n))
       (taken seen)"
proof -
  have c: "count_list (seen @ [n]) n' = count_list seen n' + (if n = n' then 1 else 0)" for n'
    by simp
  have z: "count_list seen n = 0 \<longleftrightarrow> n \<notin> set seen"
    by (simp add: count_list_0_iff)
  show ?thesis
  proof (intro set_eqI iffI)
    fix s
    assume "s \<in> taken (seen @ [n])"
    then consider "s \<in> set seen" | "s = n"
      | n' i where "s = n' @ fmt_index i" "1 \<le> i" "i < count_list (seen @ [n]) n'"
      unfolding taken_def by auto
    then show "s \<in> insert (if count_list seen n = 0 then n else n @ fmt_index (count_list seen n))
       (taken seen)"
    proof cases
      case 1
      then show ?thesis by (simp add: taken_def)
    next
      case 2
      then show ?thesis using z by (auto simp: taken_def)
    next
      case 3
      show ?thesis
      proof (cases "i < count_list seen n'")
        case True
        with 3 show ?thesis by (auto simp: taken_def)
      next
        case False
        with 3(3) have "n = n'" and "i = count_list seen n"
          by (auto simp: c split: if_splits)
        with 3(1,2) show ?thesis by auto
      qed
    qed
  next
    fix s
    assume "s \<in> insert (if count_list seen n = 0 then n else n @ fmt_index (count_list seen n))
       (taken seen)"
    then consider "s = (if count_list seen n = 0 then n else n @ fmt_index (count_list seen n))"
      | "s \<in> taken seen" by auto
    then show "s \<in> taken (seen @ [n])"
    proof cases
      case 1
      show ?thesis
      proof (cases "count_list seen n = 0")
        case True
        with 1 show ?thesis by (simp add: taken_def)
      next
        case False
        with 1 have "s = n @ fmt_index (count_list seen n)" by simp
        moreover from False have "1 \<le> count_list seen n" by simp
        moreover have "count_list seen n < count_list (seen @ [n]) n" by simp
        ultimately show ?thesis unfolding taken_def by blast
      qed
    next
      case 2
      then consider "s \<in> set seen"
        | n' i where "s = n' @ fmt_index i" "1 \<le> i" "i < count_list seen n'"
        unfolding taken_def by auto
      then show ?thesis
      proof cases
        case 1
        then show ?thesis by (simp add: taken_def)
      next
        case 2
        from 2(3) have "i < count_list (seen @ [n]) n'" by (simp add: c)
        with 2(1,2) show ?thesis unfolding taken_def by blast
      qed
    qed
  qed
qed

lemma name_in_taken:
  assumes "\<forall>n' \<in> set seen. name_ok n'" and "name_ok n"
  shows "n \<in> taken seen \<longleftrightarrow> count_list seen n \<noteq> 0"
  using assms name_ne_index [of n]
  by (auto simp: taken_def name_ok_def count_list_0_iff)

lemma index_in_taken:
  assumes "\<forall>n' \<in> set seen. name_ok n'" and "name_ok n"
  shows "n @ fmt_index i \<in> taken seen \<longleftrightarrow> 1 \<le> i \<and> i < count_list seen n"
proof
  assume "n @ fmt_index i \<in> taken seen"
  then consider "n @ fmt_index i \<in> set seen"
    | n' i' where "n @ fmt_index i = n' @ fmt_index i'" "1 \<le> i'" "i' < count_list seen n'"
    unfolding taken_def by auto
  then show "1 \<le> i \<and> i < count_list seen n"
  proof cases
    case 1
    with assms(1) have "name_ok (n @ fmt_index i)" by blast
    then show ?thesis by (simp add: name_ok_def fmt_index_Cons)
  next
    case 2
    have "CHR ''['' \<notin> set n'"
    proof -
      from 2(3) have "n' \<in> set seen" by (metis count_list_0_iff not_less0)
      with assms(1) show ?thesis by (auto simp: name_ok_def)
    qed
    with 2(1) assms(2) have "n = n' \<and> i = i'"
      by (intro name_index_eq) (auto simp: name_ok_def)
    with 2(2,3) show ?thesis by simp
  qed
next
  assume "1 \<le> i \<and> i < count_list seen n"
  then show "n @ fmt_index i \<in> taken seen" unfolding taken_def by blast
qed


lemma taken_Nil: "taken [] = {}"
  by (simp add: taken_def)

lemma segment_in_keys:
  assumes "siblings_inv m parent seen" and "s \<noteq> []"
    and "\<And>c. c \<in> set s \<Longrightarrow> c \<noteq> CHR ''.'' \<and> c \<noteq> CHR '':''"
  shows "child_prefix parent @ s \<in> fst ` set m \<longleftrightarrow> s \<in> taken seen"
proof
  assume "child_prefix parent @ s \<in> fst ` set m"
  with assms(1) have "first_segment s = [] \<or> first_segment s \<in> taken seen"
    unfolding siblings_inv_def by blast
  moreover have "first_segment s = s"
    using first_segment_append [of s "[]"] assms(3) by simp
  ultimately show "s \<in> taken seen" using assms(2) by simp
next
  assume "s \<in> taken seen"
  with assms(1) show "child_prefix parent @ s \<in> fst ` set m"
    unfolding siblings_inv_def by blast
qed

lemma recordNode_occurrence:
  assumes inv: "siblings_inv m parent seen"
    and seen: "\<forall>n' \<in> set seen. name_ok n'" and n: "name_ok n"
  shows "recordNode m (child_prefix parent @ n) c =
     (occurrence_path parent n (count_list seen n),
      assign m (occurrence_path parent n (count_list seen n)) c)"
proof -
  let ?bare = "child_prefix parent @ n"
  let ?j = "count_list seen n"
  from n have plain: "c \<noteq> CHR ''.'' \<and> c \<noteq> CHR '':''" if "c \<in> set n" for c
    using that by (auto simp: name_ok_def)
  from n have ne: "n \<noteq> []" by (simp add: name_ok_def)
  have bare: "?bare \<in> fst ` set m \<longleftrightarrow> ?j \<noteq> 0"
    using segment_in_keys [OF inv ne plain] name_in_taken [OF seen n] by simp
  have idx: "?bare @ fmt_index i \<in> fst ` set m \<longleftrightarrow> 1 \<le> i \<and> i < ?j" for i
  proof -
    have "c \<noteq> CHR ''.'' \<and> c \<noteq> CHR '':''" if "c \<in> set (n @ fmt_index i)" for c
      using that plain fmt_index_plain [of c i] by auto
    from segment_in_keys [OF inv _ this, of "n @ fmt_index i"] ne
    show ?thesis using index_in_taken [OF seen n, of i] by simp
  qed
  show ?thesis
  proof (cases "?j = 0")
    case True
    with bare have "count m ?bare = 0" by (simp add: count_keys)
    with True show ?thesis
      by (simp add: recordNode_def occurrence_path_segment)
  next
    case False
    with bare have c: "count m ?bare \<noteq> 0" by (simp add: count_keys)
    have "pathCount m ?bare = ?j"
      using False idx by (intro pathCount_unique) auto
    with c False show ?thesis
      by (simp add: recordNode_def occurrence_path_segment Let_def)
  qed
qed

lemma new_segment_fresh:
  assumes "\<forall>n' \<in> set seen. name_ok n'" and "name_ok n"
  shows "(if count_list seen n = 0 then n else n @ fmt_index (count_list seen n)) \<notin> taken seen"
  using name_in_taken [OF assms] index_in_taken [OF assms, of "count_list seen n"]
  by auto

lemma child_prefix_nonempty: "q \<noteq> [] \<Longrightarrow> child_prefix q = q @ ''.''"
  by (simp add: child_prefix_def pathDelim_def)

lemma inv_children_start:
  assumes inv: "siblings_inv m parent seen"
    and seen: "\<forall>n' \<in> set seen. name_ok n'" and n: "name_ok n"
    and q: "q = occurrence_path parent n (count_list seen n)"
    and keys: "fst ` set m2 \<subseteq> fst ` set m \<union> {q} \<union> {q @ '':'' @ a | a. True}"
  shows "siblings_inv m2 q []"
proof -
  let ?s = "if count_list seen n = 0 then n else n @ fmt_index (count_list seen n)"
  have qs: "q = child_prefix parent @ ?s"
    unfolding q by (rule occurrence_path_segment)
  from n have sne: "?s \<noteq> []" by (auto simp: name_ok_def)
  then have qne: "q \<noteq> []" by (simp add: qs)
  have plain: "c \<noteq> CHR ''.'' \<and> c \<noteq> CHR '':''" if "c \<in> set ?s" for c
    using segment_plain [OF n that] .
  have "False" if k: "k \<in> fst ` set m2" and r: "k = child_prefix q @ r" for k r
  proof -
    from r qne have kr: "k = q @ CHR ''.'' # r" by (simp add: child_prefix_nonempty)
    from k keys consider "k \<in> fst ` set m" | "k = q" | a where "k = q @ '':'' @ a" by blast
    then show False
    proof cases
      case 1
      have "k = child_prefix parent @ (?s @ CHR ''.'' # r)" by (simp add: kr qs)
      with inv 1 have "first_segment (?s @ CHR ''.'' # r) = [] \<or>
          first_segment (?s @ CHR ''.'' # r) \<in> taken seen"
        unfolding siblings_inv_def by blast
      moreover have "first_segment (?s @ CHR ''.'' # r) = ?s"
        by (rule first_segment_append) (use plain in auto)
      ultimately show False using sne new_segment_fresh [OF seen n] by simp
    next
      case 2
      with kr show False by simp
    next
      case 3
      with kr show False by simp
    qed
  qed
  then show ?thesis unfolding siblings_inv_def taken_Nil by blast
qed

lemma inv_step:
  assumes inv: "siblings_inv m parent seen"
    and seen: "\<forall>n' \<in> set seen. name_ok n'" and n: "name_ok n"
    and q: "q = occurrence_path parent n (count_list seen n)"
    and lower: "fst ` set m \<union> {q} \<subseteq> fst ` set m'"
    and upper: "fst ` set m' \<subseteq> fst ` set m \<union> below q"
  shows "siblings_inv m' parent (seen @ [n])"
proof -
  let ?s = "if count_list seen n = 0 then n else n @ fmt_index (count_list seen n)"
  have qs: "q = child_prefix parent @ ?s"
    unfolding q by (rule occurrence_path_segment)
  have t: "taken (seen @ [n]) = insert ?s (taken seen)"
    by (rule taken_snoc [OF seen n])
  have plain: "c \<noteq> CHR ''.'' \<and> c \<noteq> CHR '':''" if "c \<in> set ?s" for c
    using segment_plain [OF n that] .
  have a: "first_segment r = [] \<or> first_segment r \<in> taken (seen @ [n])"
    if k: "k \<in> fst ` set m'" and r: "k = child_prefix parent @ r" for k r
  proof -
    from k upper consider "k \<in> fst ` set m" | "k \<in> below q" by blast
    then show ?thesis
    proof cases
      case 1
      with inv r show ?thesis unfolding siblings_inv_def t by blast
    next
      case 2
      then obtain u where u: "k = q @ u" "u = [] \<or> hd u = CHR ''.'' \<or> hd u = CHR '':''"
        unfolding below_def by blast
      with r qs have "r = ?s @ u" by simp
      moreover have "first_segment (?s @ u) = ?s"
        by (rule first_segment_append) (use plain u(2) in auto)
      ultimately show ?thesis unfolding t by simp
    qed
  qed
  have b: "child_prefix parent @ s \<in> fst ` set m'" if "s \<in> taken (seen @ [n])" for s
  proof -
    from that t consider "s = ?s" | "s \<in> taken seen" by blast
    then show ?thesis
    proof cases
      case 1
      with qs lower show ?thesis by auto
    next
      case 2
      with inv have "child_prefix parent @ s \<in> fst ` set m"
        unfolding siblings_inv_def by blast
      with lower show ?thesis by blast
    qed
  qed
  from a b show ?thesis unfolding siblings_inv_def by blast
qed


lemma below_self: "q \<in> below q"
  by (simp add: below_def)

lemma below_attr: "q @ attrDelim @ a \<in> below q"
  by (simp add: below_def attrDelim_def)

lemma below_child: "q \<noteq> [] \<Longrightarrow> child_prefix q @ t \<in> below q"
  by (simp add: below_def child_prefix_nonempty)

lemma below_prefix:
  "below (occurrence_path parent n k) \<subseteq> {child_prefix parent @ t | t. True}"
  by (auto simp: below_def occurrence_path_segment)

lemma frame_trans: "D \<subseteq> A \<union> E \<Longrightarrow> A \<subseteq> B \<union> C \<Longrightarrow> C \<subseteq> E \<Longrightarrow> D \<subseteq> B \<union> E"
  by blast

lemma flatten_refines:
  "1 < level \<Longrightarrow> names_ok node \<Longrightarrow> \<forall>n' \<in> set seen. name_ok n' \<Longrightarrow>
   siblings_inv m path seen \<Longrightarrow>
     mapFile m node level path =
       flattenNode m node
         (occurrence_path path (GetNodeName node) (count_list seen (GetNodeName node))) \<and>
     fst ` set (mapFile m node level path) \<subseteq>
       fst ` set m \<union>
       below (occurrence_path path (GetNodeName node) (count_list seen (GetNodeName node))) \<and>
     occurrence_path path (GetNodeName node) (count_list seen (GetNodeName node))
       \<in> fst ` set (mapFile m node level path)"
  "1 < level \<Longrightarrow> \<forall>c \<in> set cs. names_ok c \<Longrightarrow> \<forall>n' \<in> set seen. name_ok n' \<Longrightarrow>
   siblings_inv m path seen \<Longrightarrow>
     mapChildren m cs level path = flattenChildren m cs seen path \<and>
     fst ` set (mapChildren m cs level path) \<subseteq>
       fst ` set m \<union> {child_prefix path @ t | t. True}"
proof (induction m node level path and m cs level path arbitrary: seen and seen
    rule: mapFile_mapChildren.induct)
  case (1 m name content as cs level path)
  let ?c = "case content of None \<Rightarrow> valDNE | Some c \<Rightarrow> c"
  let ?path2 = "if 1 < level then (if path \<noteq> [] then path @ pathDelim else path) @ name
                else (if path \<noteq> [] then path @ pathDelim else path)"
  let ?q = "occurrence_path path name (count_list seen name)"
  let ?m2 = "mapAttrs (assign m ?q ?c) ?q as"
  from "1.prems" have lvl: "1 < level" and n: "name_ok name"
    and cs: "\<forall>c \<in> set cs. names_ok c" and seen: "\<forall>n' \<in> set seen. name_ok n'"
    and inv: "siblings_inv m path seen"
    by simp_all
  from lvl have p2: "?path2 = child_prefix path @ name"
    by (simp add: child_prefix_def)
  have r: "recordNode m ?path2 ?c = (?q, assign m ?q ?c)"
    unfolding p2 by (rule recordNode_occurrence [OF inv seen n])
  have k2: "fst ` set ?m2 = fst ` set m \<union> {?q} \<union> (\<lambda>a. ?q @ attrDelim @ fst a) ` set as"
    by (auto simp: keys_mapAttrs keys_assign)
  then have "fst ` set ?m2 \<subseteq> fst ` set m \<union> {?q} \<union> {?q @ '':'' @ a | a. True}"
    by (auto simp: attrDelim_def)
  with inv seen n have inv2: "siblings_inv ?m2 ?q []"
    by (intro inv_children_start [where q = ?q]) auto
  have qne: "?q \<noteq> []"
    using n by (auto simp: occurrence_path_segment name_ok_def)
  have l1: "1 < level + 1" using lvl by simp
  have seen0: "\<forall>n' \<in> set []. name_ok n'" by simp
  note ih0 = "1.IH" [OF refl refl refl refl r [symmetric] refl l1 cs seen0 inv2]
  note ih = ih0 [THEN conjunct1] and fr = ih0 [THEN conjunct2]
  have unfold: "mapFile m (XmlNode name content as cs) level path =
      mapChildren ?m2 cs (level + 1) ?q"
    using r by (simp add: Let_def)
  have flat: "flattenNode m (XmlNode name content as cs) ?q = flattenChildren ?m2 cs [] ?q"
    by (simp add: Let_def)
  have "fst ` set ?m2 \<union> {child_prefix ?q @ t | t. True} \<subseteq> fst ` set m \<union> below ?q"
    unfolding k2 using below_self [of ?q] below_attr [of ?q] below_child [OF qne] by auto
  with fr have "fst ` set (mapChildren ?m2 cs (level + 1) ?q) \<subseteq> fst ` set m \<union> below ?q"
    by blast
  moreover have "?q \<in> fst ` set (mapChildren ?m2 cs (level + 1) ?q)"
    using keys_mono(2) [of ?m2 cs "level + 1" ?q] k2 by blast
  ultimately show ?case
    unfolding unfold flat xml_node.sel using ih by (intro conjI)
next
  case (2 m level path)
  then show ?case by simp
next
  case (3 m child rest level path)
  let ?n = "GetNodeName child"
  let ?q = "occurrence_path path ?n (count_list seen ?n)"
  let ?m' = "mapFile m child level path"
  from "3.prems" have lvl: "1 < level" and child: "names_ok child"
    and rest: "\<forall>c \<in> set rest. names_ok c" and seen: "\<forall>n' \<in> set seen. name_ok n'"
    and inv: "siblings_inv m path seen"
    by simp_all
  from child have n: "name_ok ?n" by (cases child) simp
  note ih1 = "3.IH"(1) [OF lvl child seen inv]
  note eq1 = ih1 [THEN conjunct1] and fr1 = ih1 [THEN conjunct2, THEN conjunct1]
    and q = ih1 [THEN conjunct2, THEN conjunct2]
  from q keys_mono(1) [of m child level path]
  have lower: "fst ` set m \<union> {?q} \<subseteq> fst ` set ?m'" by blast
  have inv': "siblings_inv ?m' path (seen @ [?n])"
    by (rule inv_step [OF inv seen n refl lower fr1])
  from seen n have seen': "\<forall>n' \<in> set (seen @ [?n]). name_ok n'" by simp
  note ih2 = "3.IH"(2) [OF lvl rest seen' inv']
  note eq2 = ih2 [THEN conjunct1] and fr2 = ih2 [THEN conjunct2]
  note bp = below_prefix [of path ?n "count_list seen ?n"]
  have fr: "fst ` set (mapChildren ?m' rest level path) \<subseteq>
       fst ` set m \<union> {child_prefix path @ t | t. True}"
    by (rule frame_trans [OF fr2 fr1 bp])
  have "mapChildren m (child # rest) level path = flattenChildren m (child # rest) seen path"
    using eq2 eq1 by simp
  moreover have "fst ` set (mapChildren m (child # rest) level path) \<subseteq>
       fst ` set m \<union> {child_prefix path @ t | t. True}"
    using fr by simp
  ultimately show ?case by (intro conjI)
qed


lemma mapFile_flatten_by_occurrence:
  assumes "tree_ok root"
  shows "mapFile [] root 1 [] = flatten_by_occurrence root"
proof -
  obtain name content as cs where root: "root = XmlNode name content as cs"
    by (cases root)
  let ?c = "case content of Some c \<Rightarrow> c | None \<Rightarrow> valDNE"
  let ?m2 = "mapAttrs [([], ?c)] [] as"
  from assms have cs: "\<forall>c \<in> set cs. names_ok c"
    by (simp add: tree_ok_def root)
  have keys: "fst ` set ?m2 = {[]} \<union> (\<lambda>a. '':'' @ fst a) ` set as"
    by (simp add: keys_mapAttrs attrDelim_def)
  have "first_segment k = []" if "k \<in> fst ` set ?m2" for k
  proof -
    from that keys consider "k = []" | a where "k = '':'' @ a" by auto
    then show ?thesis by cases (simp_all add: first_segment_def)
  qed
  then have inv: "siblings_inv ?m2 [] []"
    by (simp add: siblings_inv_def taken_Nil child_prefix_def)
  have "mapChildren ?m2 cs (Suc (Suc 0)) [] = flattenChildren ?m2 cs [] []"
    using flatten_refines(2) [OF _ cs _ inv, of "Suc (Suc 0)"] by simp
  then show ?thesis
    by (simp add: root mapFile_root flatten_by_occurrence_def del: mapFile.simps)
qed

lemma recordNode_step:
  "(path \<notin> fst ` set m \<longrightarrow> recordNode m path c = (path, assign m path c)) \<and>
   (path \<in> fst ` set m \<longrightarrow>
      (\<exists>i\<ge>1. recordNode m path c = (path @ fmt_index i, assign m (path @ fmt_index i) c) \<and>
         path @ fmt_index i \<notin> fst ` set m \<and>
         (\<forall>j. 1 \<le> j \<and> j < i \<longrightarrow> path @ fmt_index j \<in> fst ` set m)))"
  using pathCount_spec [of m path]
  by (auto simp: recordNode_def Let_def count_keys)

lemma pathCount_from_taken:
  "path @ fmt_index i \<in> fst ` set m \<Longrightarrow> pathCount_from m path i = pathCount_from m path (Suc i)"
  by (subst pathCount_from.simps) (simp add: count_keys)

lemma pathCount_from_free:
  "path @ fmt_index i \<notin> fst ` set m \<Longrightarrow> pathCount_from m path i = i"
  by (subst pathCount_from.simps) (simp add: count_keys)

lemma fmt_index_1: "fmt_index (Suc 0) = ''[1]''"
  by (simp add: fmt_index_def dec.simps digit_char_def)

lemma fmt_index_2: "fmt_index (Suc (Suc 0)) = ''[2]''"
  by (simp add: fmt_index_def dec.simps digit_char_def)

lemma recordNode_new:
  "path \<notin> fst ` set m \<Longrightarrow> recordNode m path c = (path, assign m path c)"
  by (simp add: recordNode_def count_keys)

lemma recordNode_index1:
  "path \<in> fst ` set m \<Longrightarrow> path @ ''[1]'' \<notin> fst ` set m \<Longrightarrow>
     recordNode m path c = (path @ ''[1]'', assign m (path @ ''[1]'') c)"
  using pathCount_from_free [of path "Suc 0" m]
  by (simp add: recordNode_def count_keys pathCount_def fmt_index_1 Let_def)

lemma recordNode_index2:
  "path \<in> fst ` set m \<Longrightarrow> path @ ''[1]'' \<in> fst ` set m \<Longrightarrow>
   path @ ''[2]'' \<notin> fst ` set m \<Longrightarrow>
     recordNode m path c = (path @ ''[2]'', assign m (path @ ''[2]'') c)"
  using pathCount_from_taken [of path "Suc 0" m] pathCount_from_free [of path "Suc (Suc 0)" m]
  by (simp add: recordNode_def count_keys pathCount_def fmt_index_1 fmt_index_2 Let_def)

lemma mapFile_leaf:
  assumes "1 < level"
    and "recordNode m (child_prefix path @ name)
           (case content of Some c \<Rightarrow> c | None \<Rightarrow> valDNE) = (q, m')"
  shows "mapFile m (XmlNode name content [] []) level path = m'"
  using assms by (simp add: child_prefix_def)

lemma mapFile_inner:
  assumes "1 < level"
    and "recordNode m (child_prefix path @ name)
           (case content of Some c \<Rightarrow> c | None \<Rightarrow> valDNE) = (q, m')"
  shows "mapFile m (XmlNode name content [] cs) level path = mapChildren m' cs (level + 1) q"
  using assms by (simp add: child_prefix_def)

lemma dotted_tree_store:
  "mapFile [] dotted_tree 1 [] =
     [([], ''<DNE/>''), (''A'', ''<DNE/>''), (''A.Item'', ''x''), (''A.Item[1]'', ''a''),
      (''A.Item[2]'', ''b'')]"
proof -
  let ?m0 = "[([], ''<DNE/>'')]"
  let ?m1 = "[([], ''<DNE/>''), (''A.Item'', ''x'')]"
  let ?m2 = "[([], ''<DNE/>''), (''A'', ''<DNE/>''), (''A.Item'', ''x'')]"
  let ?m3 = "[([], ''<DNE/>''), (''A'', ''<DNE/>''), (''A.Item'', ''x''), (''A.Item[1]'', ''a'')]"
  let ?m4 = "[([], ''<DNE/>''), (''A'', ''<DNE/>''), (''A.Item'', ''x''), (''A.Item[1]'', ''a''),
      (''A.Item[2]'', ''b'')]"
  have l2: "1 < Suc (Suc 0)" and l3: "1 < Suc (Suc 0) + 1" by simp_all
  have p0: "child_prefix [] = []" and pA: "child_prefix ''A'' = ''A.''"
    by (simp_all add: child_prefix_def pathDelim_def)
  have r1: "recordNode ?m0 (child_prefix [] @ ''A.Item'')
      (case Some ''x'' of Some c \<Rightarrow> c | None \<Rightarrow> valDNE) = (''A.Item'', ?m1)"
    unfolding p0 by (subst recordNode_new) simp_all
  have r2: "recordNode ?m1 (child_prefix [] @ ''A'')
      (case None of Some c \<Rightarrow> c | None \<Rightarrow> valDNE) = (''A'', ?m2)"
    unfolding p0 by (subst recordNode_new) (simp_all add: valDNE_def)
  have r3: "recordNode ?m2 (child_prefix ''A'' @ ''Item'')
      (case Some ''a'' of Some c \<Rightarrow> c | None \<Rightarrow> valDNE) = (''A.Item[1]'', ?m3)"
    unfolding pA by (subst recordNode_index1) simp_all
  have r4: "recordNode ?m3 (child_prefix ''A'' @ ''Item'')
      (case Some ''b'' of Some c \<Rightarrow> c | None \<Rightarrow> valDNE) = (''A.Item[2]'', ?m4)"
    unfolding pA by (subst recordNode_index2) simp_all
  note s1 = mapFile_leaf [OF l2 r1]
  note s2 = mapFile_inner [OF l2 r2]
  note s3 = mapFile_leaf [OF l3 r3]
  note s4 = mapFile_leaf [OF l3 r4]
  have "mapFile [] dotted_tree (Suc 0) [] = ?m4"
    unfolding dotted_tree_def mapFile_root
    by (simp only: mapAttrs.simps mapChildren.simps option.case valDNE_def s1 s2 s3 s4)
  then show ?thesis by simp
qed


lemma items_tree_flat:
  "flatten_by_occurrence items_tree =
     [([], ''<DNE/>''), (''Parent'', ''<DNE/>''), (''Parent.Item'', ''a''),
      (''Parent.Item[1]'', ''b''), (''Parent.Item[2]'', ''c'')]"
  by (simp add: items_tree_def flatten_by_occurrence_def occurrence_path_def fmt_index_def
      dec.simps digit_char_def valDNE_def pathDelim_def Let_def)

lemma items_tree_ok: "tree_ok items_tree"
  by (simp add: items_tree_def tree_ok_def name_ok_def)

lemma dotted_tree_flat:
  "flatten_by_occurrence dotted_tree =
     [([], ''<DNE/>''), (''A'', ''<DNE/>''), (''A.Item'', ''a''), (''A.Item[1]'', ''b'')]"
  by (simp add: dotted_tree_def flatten_by_occurrence_def occurrence_path_def fmt_index_def
      dec.simps digit_char_def valDNE_def pathDelim_def Let_def)

text \<open>
  Claim C1, as stated, fails on a document whose element names contain the path
  delimiter. In \<open>dotted_tree\<close> the element named A.Item takes the bare path "A.Item"
  before the children of A are visited; the first Item below A is then recorded under
  "A.Item[1]" and the second under "A.Item[2]", while "A.Item" holds the text of the
  other element.
\<close>

theorem sibling_first_occurrence_counterexample:
  "mapFile [] dotted_tree 1 [] =
     [([], ''<DNE/>''), (''A'', ''<DNE/>''), (''A.Item'', ''x''), (''A.Item[1]'', ''a''),
      (''A.Item[2]'', ''b'')] \<and>
   map_of (mapFile [] dotted_tree 1 []) ''A.Item'' \<noteq> Some ''a'' \<and>
   mapFile [] dotted_tree 1 [] \<noteq> flatten_by_occurrence dotted_tree"
  unfolding dotted_tree_store dotted_tree_flat by simp

text \<open>
  Claim C1, amended. On every store, a node whose bare path is not yet a key is
  recorded under the bare path, and a node whose bare path is a key is recorded under
  the bare path followed by [i], where i is the least index from 1 on whose path is not
  a key. For every tree whose element names below the root are not empty and contain
  none of ".", ":" and "[", the result is the flattening by occurrence: among the
  children of a node the first occurrence of a name is stored under the bare path and
  the k-th later occurrence under the bare path followed by [k]. For three siblings
  Item with the texts a, b, c below Parent the store is: the root under the empty
  path, Parent, Parent.Item with a, Parent.Item[1] with b and Parent.Item[2] with c.
\<close>

theorem sibling_disambiguation:
  "(path \<notin> fst ` set m \<longrightarrow> recordNode m path c = (path, assign m path c)) \<and>
   (path \<in> fst ` set m \<longrightarrow>
      (\<exists>i\<ge>1. recordNode m path c = (path @ fmt_index i, assign m (path @ fmt_index i) c) \<and>
         path @ fmt_index i \<notin> fst ` set m \<and>
         (\<forall>j. 1 \<le> j \<and> j < i \<longrightarrow> path @ fmt_index j \<in> fst ` set m))) \<and>
   (tree_ok root \<longrightarrow> mapFile [] root 1 [] = flatten_by_occurrence root) \<and>
   mapFile [] items_tree 1 [] =
     [([], ''<DNE/>''), (''Parent'', ''<DNE/>''), (''Parent.Item'', ''a''),
      (''Parent.Item[1]'', ''b''), (''Parent.Item[2]'', ''c'')]"
proof -
  have "mapFile [] items_tree 1 [] = flatten_by_occurrence items_tree"
    by (rule mapFile_flatten_by_occurrence [OF items_tree_ok])
  then show ?thesis
    using recordNode_step [of path m c] mapFile_flatten_by_occurrence [of root]
    unfolding items_tree_flat by blast
qed

theorem sibling_disambiguation_witness:
  "''b'' \<notin> fst ` set [(''a'', ''1''), (''a[1]'', ''2'')] \<and>
   recordNode [(''a'', ''1''), (''a[1]'', ''2'')] ''b'' ''v'' =
     (''b'', [(''a'', ''1''), (''a[1]'', ''2''), (''b'', ''v'')]) \<and>
   ''a'' \<in> fst ` set [(''a'', ''1''), (''a[1]'', ''2'')] \<and>
   (\<exists>i\<ge>1. recordNode [(''a'', ''1''), (''a[1]'', ''2'')] ''a'' ''v'' =
       (''a'' @ fmt_index i, assign [(''a'', ''1''), (''a[1]'', ''2'')] (''a'' @ fmt_index i) ''v'') \<and>
       ''a'' @ fmt_index i \<notin> fst ` set [(''a'', ''1''), (''a[1]'', ''2'')]) \<and>
   recordNode [(''a'', ''1''), (''a[1]'', ''2'')] ''a'' ''v'' =
     (''a[2]'', [(''a'', ''1''), (''a[1]'', ''2''), (''a[2]'', ''v'')]) \<and>
   tree_ok items_tree \<and>
   mapFile [] items_tree 1 [] = flatten_by_occurrence items_tree"
proof -
  let ?m = "[(''a'', ''1''), (''a[1]'', ''2'')]"
  have nb: "''b'' \<notin> fst ` set ?m" and a: "''a'' \<in> fst ` set ?m" by simp_all
  from sibling_disambiguation [of "''b''" ?m "''v''" items_tree] nb items_tree_ok
  have 1: "recordNode ?m ''b'' ''v'' = (''b'', assign ?m ''b'' ''v'')"
    and 2: "mapFile [] items_tree 1 [] = flatten_by_occurrence items_tree"
    by blast+
  from sibling_disambiguation [of "''a''" ?m "''v''" items_tree] a
  have 3: "\<exists>i\<ge>1. recordNode ?m ''a'' ''v'' =
       (''a'' @ fmt_index i, assign ?m (''a'' @ fmt_index i) ''v'') \<and>
       ''a'' @ fmt_index i \<notin> fst ` set ?m"
    by blast
  have 4: "recordNode ?m ''a'' ''v'' = (''a[2]'', assign ?m ''a[2]'' ''v'')"
    using recordNode_index2 [of "''a''" ?m "''v''"] by simp
  from 1 2 3 4 nb a items_tree_ok show ?thesis by simp
qed

end
